theory Spec2Isabelle
  imports Main "HOL-Library.Word" "HOL-Library.Char_ord" "HOL-Library.List_Lexorder"
begin

unbundle bit_operations_syntax

section \<open>Python values and errors\<close>

text \<open>
  The exceptions the two modules can raise.  Every \<^verbatim>\<open>raise\<close> of the source, and every
  exception raised by a Python primitive the source calls, is a value \<open>Inl e\<close> of the
  result type \<open>error + 'a\<close>.
\<close>

datatype error = ValueError | TypeError | ZeroDivisionError | IndexError

text \<open>
  A coefficient is a Python number together with its dynamic class: a plain \<^verbatim>\<open>int\<close> or a
  \<^verbatim>\<open>GF256int\<close> instance (a subclass of \<^verbatim>\<open>int\<close>).  The class matters where the source
  dispatches on it: operator overloading, \<^verbatim>\<open>isinstance\<close> in \<^verbatim>\<open>__pow__\<close> and
  \<^verbatim>\<open>hasattr(divisor_lc, "inverse")\<close> in \<^verbatim>\<open>__divmod__\<close>.
\<close>

datatype coef = PyInt int | GF int

fun val :: "coef \<Rightarrow> int" where
  "val (PyInt i) = i"
| "val (GF a) = a"

text \<open>Sequencing of computations that may raise.\<close>

definition ebind :: "error + 'a \<Rightarrow> ('a \<Rightarrow> error + 'b) \<Rightarrow> error + 'b" where
  "ebind m f = (case m of Inl e \<Rightarrow> Inl e | Inr v \<Rightarrow> f v)"

text \<open>
  Indexing a tuple or list, \<^verbatim>\<open>xs[i]\<close>: a negative index counts from the end, an index
  outside \<open>[-len, len)\<close> raises \<^verbatim>\<open>IndexError\<close>.
\<close>

definition py_index :: "'a list \<Rightarrow> int \<Rightarrow> error + 'a" where
  "py_index xs i =
     (if 0 \<le> i \<and> i < int (length xs) then Inr (xs ! nat i)
      else if i < 0 \<and> - int (length xs) \<le> i then Inr (xs ! nat (int (length xs) + i))
      else Inl IndexError)"

section \<open>ff.py: the field GF(2^8)\<close>

subsection \<open>The tables\<close>

definition exptable :: "int list" where
  "exptable = [
   1, 3, 5, 15, 17, 51, 85, 255, 26, 46, 114, 150, 161, 248, 19, 53, 95, 225,
   56, 72, 216, 115, 149, 164, 247, 2, 6, 10, 30, 34, 102, 170, 229, 52, 92,
   228, 55, 89, 235, 38, 106, 190, 217, 112, 144, 171, 230, 49, 83, 245, 4,
   12, 20, 60, 68, 204, 79, 209, 104, 184, 211, 110, 178, 205, 76, 212, 103,
   169, 224, 59, 77, 215, 98, 166, 241, 8, 24, 40, 120, 136, 131, 158, 185,
   208, 107, 189, 220, 127, 129, 152, 179, 206, 73, 219, 118, 154, 181, 196,
   87, 249, 16, 48, 80, 240, 11, 29, 39, 105, 187, 214, 97, 163, 254, 25, 43,
   125, 135, 146, 173, 236, 47, 113, 147, 174, 233, 32, 96, 160, 251, 22, 58,
   78, 210, 109, 183, 194, 93, 231, 50, 86, 250, 21, 63, 65, 195, 94, 226, 61,
   71, 201, 64, 192, 91, 237, 44, 116, 156, 191, 218, 117, 159, 186, 213, 100,
   172, 239, 42, 126, 130, 157, 188, 223, 122, 142, 137, 128, 155, 182, 193,
   88, 232, 35, 101, 175, 234, 37, 111, 177, 200, 67, 197, 84, 252, 31, 33,
   99, 165, 244, 7, 9, 27, 45, 119, 153, 176, 203, 70, 202, 69, 207, 74, 222,
   121, 139, 134, 145, 168, 227, 62, 66, 198, 81, 243, 14, 18, 54, 90, 238,
   41, 123, 141, 140, 143, 138, 133, 148, 167, 242, 13, 23, 57, 75, 221, 124,
   132, 151, 162, 253, 28, 36, 108, 180, 199, 82, 246, 1
  ]"

text \<open>The first entry of the logarithm table is \<^verbatim>\<open>None\<close>: zero has no logarithm.\<close>

definition logtable :: "int option list" where
  "logtable = [
   None, Some 0, Some 25, Some 1, Some 50, Some 2, Some 26, Some 198, Some 75,
   Some 199, Some 27, Some 104, Some 51, Some 238, Some 223, Some 3, Some 100,
   Some 4, Some 224, Some 14, Some 52, Some 141, Some 129, Some 239, Some 76,
   Some 113, Some 8, Some 200, Some 248, Some 105, Some 28, Some 193, Some
   125, Some 194, Some 29, Some 181, Some 249, Some 185, Some 39, Some 106,
   Some 77, Some 228, Some 166, Some 114, Some 154, Some 201, Some 9, Some
   120, Some 101, Some 47, Some 138, Some 5, Some 33, Some 15, Some 225, Some
   36, Some 18, Some 240, Some 130, Some 69, Some 53, Some 147, Some 218, Some
   142, Some 150, Some 143, Some 219, Some 189, Some 54, Some 208, Some 206,
   Some 148, Some 19, Some 92, Some 210, Some 241, Some 64, Some 70, Some 131,
   Some 56, Some 102, Some 221, Some 253, Some 48, Some 191, Some 6, Some 139,
   Some 98, Some 179, Some 37, Some 226, Some 152, Some 34, Some 136, Some
   145, Some 16, Some 126, Some 110, Some 72, Some 195, Some 163, Some 182,
   Some 30, Some 66, Some 58, Some 107, Some 40, Some 84, Some 250, Some 133,
   Some 61, Some 186, Some 43, Some 121, Some 10, Some 21, Some 155, Some 159,
   Some 94, Some 202, Some 78, Some 212, Some 172, Some 229, Some 243, Some
   115, Some 167, Some 87, Some 175, Some 88, Some 168, Some 80, Some 244,
   Some 234, Some 214, Some 116, Some 79, Some 174, Some 233, Some 213, Some
   231, Some 230, Some 173, Some 232, Some 44, Some 215, Some 117, Some 122,
   Some 235, Some 22, Some 11, Some 245, Some 89, Some 203, Some 95, Some 176,
   Some 156, Some 169, Some 81, Some 160, Some 127, Some 12, Some 246, Some
   111, Some 23, Some 196, Some 73, Some 236, Some 216, Some 67, Some 31, Some
   45, Some 164, Some 118, Some 123, Some 183, Some 204, Some 187, Some 62,
   Some 90, Some 251, Some 96, Some 177, Some 134, Some 59, Some 82, Some 161,
   Some 108, Some 170, Some 85, Some 41, Some 157, Some 151, Some 178, Some
   135, Some 144, Some 97, Some 190, Some 220, Some 252, Some 188, Some 149,
   Some 207, Some 205, Some 55, Some 63, Some 91, Some 209, Some 83, Some 57,
   Some 132, Some 60, Some 65, Some 162, Some 109, Some 71, Some 20, Some 42,
   Some 158, Some 93, Some 86, Some 242, Some 211, Some 171, Some 68, Some 17,
   Some 146, Some 217, Some 35, Some 32, Some 46, Some 137, Some 180, Some
   124, Some 184, Some 38, Some 119, Some 153, Some 227, Some 165, Some 103,
   Some 74, Some 237, Some 222, Some 197, Some 49, Some 254, Some 24, Some 13,
   Some 99, Some 140, Some 128, Some 192, Some 247, Some 112, Some 7
  ]"

subsection \<open>Construction and arithmetic\<close>

text \<open>
  \<^verbatim>\<open>GF256int.__new__\<close>.  The instance cache only ever holds values that passed the range
  check, so a cache hit returns the element the check would have built: for integer
  arguments the constructor is the range check.
\<close>

definition GF256int :: "int \<Rightarrow> error + int" where
  "GF256int value = (if value > 255 \<or> value < 0 then Inl ValueError else Inr value)"

text \<open>\<^verbatim>\<open>__add__\<close>, which is also \<^verbatim>\<open>__sub__\<close>, \<^verbatim>\<open>__radd__\<close> and \<^verbatim>\<open>__rsub__\<close>.\<close>

definition gf_add :: "int \<Rightarrow> int \<Rightarrow> error + int" where
  "gf_add self b = GF256int (self XOR b)"

definition gf_neg :: "int \<Rightarrow> int" where
  "gf_neg self = self"

text \<open>
  \<^verbatim>\<open>__mul__\<close> (also \<^verbatim>\<open>__rmul__\<close>).  Adding \<^verbatim>\<open>None\<close> to a number raises
  \<^verbatim>\<open>TypeError\<close>.
\<close>

definition gf_mul :: "int \<Rightarrow> int \<Rightarrow> error + int" where
  "gf_mul self b =
     (if self = 0 \<or> b = 0 then GF256int 0
      else ebind (py_index logtable self) (\<lambda>x.
           ebind (py_index logtable b) (\<lambda>y.
             case (x, y) of
               (Some x', Some y') \<Rightarrow>
                 ebind (py_index exptable ((x' + y') mod 255)) GF256int
             | _ \<Rightarrow> Inl TypeError)))"

text \<open>
  \<^verbatim>\<open>__pow__\<close>.  The exponent is a \<^verbatim>\<open>GF256int\<close> instance or a plain integer;
  \<^verbatim>\<open>None * power\<close> raises \<^verbatim>\<open>TypeError\<close>.
\<close>

definition gf_pow :: "int \<Rightarrow> coef \<Rightarrow> error + int" where
  "gf_pow self pwr =
     (case pwr of
        GF _ \<Rightarrow> Inl TypeError
      | PyInt n \<Rightarrow>
          ebind (py_index logtable self) (\<lambda>x.
            case x of
              None \<Rightarrow> Inl TypeError
            | Some x' \<Rightarrow> ebind (py_index exptable ((x' * n) mod 255)) GF256int))"

subsection \<open>The inverse\<close>

text \<open>
  The brute-force search of \<^verbatim>\<open>inverse\<close>: the \<^verbatim>\<open>for\<close> loop over \<^verbatim>\<open>range(1, 256)\<close>,
  followed by the \<^verbatim>\<open>raise ValueError\<close> after it.
\<close>

fun fallback_search :: "int \<Rightarrow> int list \<Rightarrow> error + int" where
  "fallback_search self [] = Inl ValueError"
| "fallback_search self (i # rest) =
     ebind (GF256int i) (\<lambda>gi.
     ebind (gf_mul self gi) (\<lambda>m.
       if m mod 256 = 1 then GF256int i else fallback_search self rest))"

text \<open>
  \<^verbatim>\<open>inverse\<close>, instrumented: besides the element it returns, the model records which
  \<^verbatim>\<open>return\<close> statement produced it.
\<close>

datatype inverse_branch = PatchBranch | FallbackBranch | TableBranch

definition inverse_traced :: "int \<Rightarrow> error + (inverse_branch \<times> int)" where
  "inverse_traced self =
     (if self = 0 then Inl ZeroDivisionError
      else if self = 255 then
        ebind (py_index exptable (255 - 7)) (\<lambda>v.
        ebind (GF256int v) (\<lambda>g. Inr (PatchBranch, g)))
      else if Some self \<notin> set logtable then
        ebind (fallback_search self [1..255]) (\<lambda>g. Inr (FallbackBranch, g))
      else
        ebind (py_index logtable self) (\<lambda>e.
          case e of
            None \<Rightarrow> Inl ValueError
          | Some e' \<Rightarrow>
              ebind (py_index exptable (255 - e')) (\<lambda>v.
              ebind (GF256int v) (\<lambda>g. Inr (TableBranch, g)))))"

definition inverse :: "int \<Rightarrow> error + int" where
  "inverse self = ebind (inverse_traced self) (\<lambda>(br, g). Inr g)"

text \<open>\<^verbatim>\<open>__div__\<close>: the method body, \<^verbatim>\<open>self * GF256int(other).inverse()\<close>.\<close>

definition gf_div :: "int \<Rightarrow> int \<Rightarrow> error + int" where
  "gf_div self other = ebind (GF256int other) (\<lambda>o'. ebind (inverse o') (\<lambda>i. gf_mul self i))"

subsection \<open>The reference multiplication\<close>

text \<open>
  The \<^verbatim>\<open>while b:\<close> loop of \<^verbatim>\<open>multiply\<close> on the state \<open>(p, b, r)\<close>.  For a negative \<open>b\<close> the
  shift \<^verbatim>\<open>b >> 1\<close> stays negative, so the loop never ends: the model returns \<open>None\<close> there.
\<close>

function multiply_loop :: "int \<Rightarrow> int \<Rightarrow> int \<Rightarrow> int option" where
  "multiply_loop p b r =
     (if b = 0 then Some r
      else if b < 0 then None
      else
        (let r' = (if b AND 1 \<noteq> 0 then r XOR p else r);
             b' = drop_bit 1 b;
             p' = push_bit 1 p;
             p'' = (if p' AND 0x100 \<noteq> 0 then p' XOR 0x11b else p')
         in multiply_loop p'' b' r'))"
  by pat_completeness auto
termination
  by (relation "measure (\<lambda>(p, b, r). nat b)") (auto simp: drop_bit_eq_div)

definition multiply :: "int \<Rightarrow> int \<Rightarrow> (error + int) option" where
  "multiply self other = map_option GF256int (multiply_loop self other 0)"

subsection \<open>The division operator\<close>

text \<open>
  The module is Python 3 source (it uses f-strings).  Python 3 evaluates \<^verbatim>\<open>a / b\<close> by
  looking up the special method \<^verbatim>\<open>__truediv__\<close> on the class of \<open>a\<close>, along its method
  resolution order: first the class body of \<^verbatim>\<open>GF256int\<close>, then its base \<^verbatim>\<open>int\<close>.  The
  table below lists the binary methods the class body defines, each with the function it
  is bound to; \<^verbatim>\<open>__div__\<close> and \<^verbatim>\<open>__rdiv__\<close> are the names Python 2 used for \<^verbatim>\<open>/\<close>.
  The result of \<^verbatim>\<open>int.__truediv__\<close> is a float; the model records that it is the float
  quotient of the two integers without computing its rounding.
\<close>

datatype pyobj = FieldElement int | FloatQuotient int int

definition as_field :: "error + int \<Rightarrow> error + pyobj" where
  "as_field r = (case r of Inl e \<Rightarrow> Inl e | Inr v \<Rightarrow> Inr (FieldElement v))"

definition gf_rdiv :: "int \<Rightarrow> int \<Rightarrow> error + int" where
  "gf_rdiv self other = ebind (inverse self) (\<lambda>i. gf_mul i other)"

definition GF256int_methods :: "(string \<times> (int \<Rightarrow> int \<Rightarrow> error + pyobj)) list" where
  "GF256int_methods =
     [(''__add__'', \<lambda>a b. as_field (gf_add a b)),
      (''__sub__'', \<lambda>a b. as_field (gf_add a b)),
      (''__radd__'', \<lambda>a b. as_field (gf_add a b)),
      (''__rsub__'', \<lambda>a b. as_field (gf_add a b)),
      (''__mul__'', \<lambda>a b. as_field (gf_mul a b)),
      (''__rmul__'', \<lambda>a b. as_field (gf_mul a b)),
      (''__div__'', \<lambda>a b. as_field (gf_div a b)),
      (''__rdiv__'', \<lambda>a b. as_field (gf_rdiv a b))]"

definition int_truediv :: "int \<Rightarrow> int \<Rightarrow> error + pyobj" where
  "int_truediv a b = (if b = 0 then Inl ZeroDivisionError else Inr (FloatQuotient a b))"

definition truediv_operator :: "int \<Rightarrow> int \<Rightarrow> error + pyobj" where
  "truediv_operator a b =
     (case map_of GF256int_methods ''__truediv__'' of
        Some m \<Rightarrow> m a b
      | None \<Rightarrow> int_truediv a b)"

section \<open>polynomial.py: polynomials over a coefficient ring\<close>

subsection \<open>Arithmetic on coefficients\<close>

text \<open>
  The binary operators as Python dispatches them.  Between two plain integers they are
  integer arithmetic.  When the left operand is a \<^verbatim>\<open>GF256int\<close> its method is called; when
  only the right one is, its reflected method (\<^verbatim>\<open>__radd__\<close>, \<^verbatim>\<open>__rsub__\<close>,
  \<^verbatim>\<open>__rmul__\<close>) is called first, because \<^verbatim>\<open>GF256int\<close> is a subclass of \<^verbatim>\<open>int\<close> that
  overrides it.  The results of the field methods are \<^verbatim>\<open>GF256int\<close> instances.
\<close>

definition as_GF :: "error + int \<Rightarrow> error + coef" where
  "as_GF r = (case r of Inl e \<Rightarrow> Inl e | Inr v \<Rightarrow> Inr (GF v))"

fun py_add :: "coef \<Rightarrow> coef \<Rightarrow> error + coef" where
  "py_add (PyInt a) (PyInt b) = Inr (PyInt (a + b))"
| "py_add (GF a) y = as_GF (gf_add a (val y))"
| "py_add (PyInt a) (GF b) = as_GF (gf_add b a)"

fun py_sub :: "coef \<Rightarrow> coef \<Rightarrow> error + coef" where
  "py_sub (PyInt a) (PyInt b) = Inr (PyInt (a - b))"
| "py_sub (GF a) y = as_GF (gf_add a (val y))"
| "py_sub (PyInt a) (GF b) = as_GF (gf_add b a)"

fun py_neg :: "coef \<Rightarrow> coef" where
  "py_neg (PyInt a) = PyInt (- a)"
| "py_neg (GF a) = GF (gf_neg a)"

fun py_mul :: "coef \<Rightarrow> coef \<Rightarrow> error + coef" where
  "py_mul (PyInt a) (PyInt b) = Inr (PyInt (a * b))"
| "py_mul (GF a) y = as_GF (gf_mul a (val y))"
| "py_mul (PyInt a) (GF b) = as_GF (gf_mul b a)"

text \<open>
  \<^verbatim>\<open>//\<close> is not overridden by \<^verbatim>\<open>GF256int\<close>: it is the floor division of \<^verbatim>\<open>int\<close>, whose
  result is a plain integer.  Python's \<^verbatim>\<open>//\<close> rounds towards minus infinity, as \<open>div\<close>
  on \<open>int\<close> does.
\<close>

definition py_floordiv :: "coef \<Rightarrow> coef \<Rightarrow> error + coef" where
  "py_floordiv x y = (if val y = 0 then Inl ZeroDivisionError else Inr (PyInt (val x div val y)))"

subsection \<open>Parsing the keyword names of the sparse form\<close>

text \<open>
  \<^verbatim>\<open>int(s)\<close> on a string, base ten: optional surrounding whitespace, an optional sign,
  then decimal digits, where single underscores may separate digits.  Anything else raises
  \<^verbatim>\<open>ValueError\<close>.  The model covers ASCII strings.
\<close>

definition digit_val :: "char \<Rightarrow> int option" where
  "digit_val c =
     (let n = (of_char c :: nat) in if 48 \<le> n \<and> n \<le> 57 then Some (int n - 48) else None)"

definition is_space :: "char \<Rightarrow> bool" where
  "is_space c =
     (let n = (of_char c :: nat) in n = 32 \<or> (9 \<le> n \<and> n \<le> 13) \<or> (28 \<le> n \<and> n \<le> 31))"

fun parse_digits :: "int \<Rightarrow> string \<Rightarrow> int option" where
  "parse_digits acc [] = Some acc"
| "parse_digits acc (c # cs) =
     (if c = CHR ''_'' then
        (case cs of
           [] \<Rightarrow> None
         | d # ds \<Rightarrow>
             (case digit_val d of None \<Rightarrow> None | Some v \<Rightarrow> parse_digits (10 * acc + v) ds))
      else
        (case digit_val c of None \<Rightarrow> None | Some v \<Rightarrow> parse_digits (10 * acc + v) cs))"

definition parse_unsigned :: "string \<Rightarrow> int option" where
  "parse_unsigned s =
     (case s of
        [] \<Rightarrow> None
      | c # cs \<Rightarrow> (case digit_val c of None \<Rightarrow> None | Some v \<Rightarrow> parse_digits v cs))"

definition py_int :: "string \<Rightarrow> error + int" where
  "py_int s =
     (let t = rev (dropWhile is_space (rev (dropWhile is_space s)));
          r = (case t of
                 [] \<Rightarrow> None
               | c # cs \<Rightarrow>
                   if c = CHR ''-'' then map_option uminus (parse_unsigned cs)
                   else if c = CHR ''+'' then parse_unsigned cs
                   else parse_unsigned t)
      in case r of None \<Rightarrow> Inl ValueError | Some n \<Rightarrow> Inr n)"

text \<open>
  Item assignment \<^verbatim>\<open>xs[i] = v\<close> on a list, with the index rule of \<open>py_index\<close>.
\<close>

definition py_setitem :: "'a list \<Rightarrow> int \<Rightarrow> 'a \<Rightarrow> error + 'a list" where
  "py_setitem xs i v =
     (if 0 \<le> i \<and> i < int (length xs) then Inr (xs[nat i := v])
      else if i < 0 \<and> - int (length xs) \<le> i then Inr (xs[nat (int (length xs) + i) := v])
      else Inl IndexError)"

subsection \<open>Construction\<close>

datatype Polynomial = Polynomial (coefficients: "coef list")

text \<open>
  The loop of the sparse form, \<^verbatim>\<open>for power, coeff in sparse.items()\<close>.  The keyword
  arguments are a dictionary from names to coefficients, kept here in insertion order.
\<close>

fun sparse_fill :: "int \<Rightarrow> (string \<times> coef) list \<Rightarrow> coef list \<Rightarrow> error + coef list" where
  "sparse_fill highest [] cs = Inr cs"
| "sparse_fill highest ((name, coeff) # rest) cs =
     ebind (py_int (drop 1 name)) (\<lambda>pw.
     ebind (py_setitem cs (highest - pw) coeff) (\<lambda>cs'.
       sparse_fill highest rest cs'))"

text \<open>
  \<^verbatim>\<open>__init__\<close>.  A non-empty sequence is true, an empty one false.  \<^verbatim>\<open>sorted\<close> compares
  the names as strings, by code point; the names of a dictionary are distinct.
\<close>

definition Polynomial_init :: "coef list \<Rightarrow> (string \<times> coef) list \<Rightarrow> error + Polynomial" where
  "Polynomial_init cs sparse =
     (if cs \<noteq> [] \<and> sparse \<noteq> [] then Inl TypeError
      else if cs \<noteq> [] then
        (let c = dropWhile (\<lambda>x. val x = 0) cs;
             c' = (if c = [] then c @ [PyInt 0] else c)
         in Inr (Polynomial c'))
      else if sparse \<noteq> [] then
        (let powers = rev (sort (map fst sparse))
         in ebind (py_int (drop 1 (hd powers))) (\<lambda>highest.
            ebind (sparse_fill highest sparse (replicate (nat (highest + 1)) (PyInt 0))) (\<lambda>cs'.
              Inr (Polynomial cs'))))
      else Inr (Polynomial [PyInt 0]))"

definition len :: "Polynomial \<Rightarrow> nat" where
  "len p = length (coefficients p)"

definition degree :: "Polynomial \<Rightarrow> int" where
  "degree p = int (length (coefficients p)) - 1"

subsection \<open>Addition, negation, multiplication\<close>

text \<open>
  A generator expression handed to the constructor: the items are computed in order and
  the first exception ends the construction.
\<close>

fun collect :: "('a \<Rightarrow> error + 'b) \<Rightarrow> 'a list \<Rightarrow> error + 'b list" where
  "collect f [] = Inr []"
| "collect f (x # xs) = ebind (f x) (\<lambda>y. ebind (collect f xs) (\<lambda>ys. Inr (y # ys)))"

definition poly_add :: "Polynomial \<Rightarrow> Polynomial \<Rightarrow> error + Polynomial" where
  "poly_add self other =
     (let diff = int (len self) - int (len other);
          t1 = (if diff > 0 then coefficients self
                else replicate (nat (- diff)) (PyInt 0) @ coefficients self);
          t2 = (if diff > 0 then replicate (nat diff) (PyInt 0) @ coefficients other
                else coefficients other)
      in ebind (collect (\<lambda>(x, y). py_add x y) (zip t1 t2)) (\<lambda>cs. Polynomial_init cs []))"

definition poly_neg :: "Polynomial \<Rightarrow> error + Polynomial" where
  "poly_neg self = Polynomial_init (map py_neg (coefficients self)) []"

definition poly_sub :: "Polynomial \<Rightarrow> Polynomial \<Rightarrow> error + Polynomial" where
  "poly_sub self other = ebind (poly_neg other) (\<lambda>n. poly_add self n)"

text \<open>
  The two loops of \<^verbatim>\<open>__mul__\<close> over \<^verbatim>\<open>enumerate(reversed(...))\<close>; \<^verbatim>\<open>terms[i] += v\<close> reads
  and writes position \<open>i\<close> of the list.
\<close>

fun mul_inner :: "coef \<Rightarrow> nat \<Rightarrow> (nat \<times> coef) list \<Rightarrow> coef list \<Rightarrow> error + coef list" where
  "mul_inner c1 i1 [] terms = Inr terms"
| "mul_inner c1 i1 ((i2, c2) # rest) terms =
     ebind (py_index terms (int (i1 + i2))) (\<lambda>t.
     ebind (py_mul c1 c2) (\<lambda>prod.
     ebind (py_add t prod) (\<lambda>s.
     ebind (py_setitem terms (int (i1 + i2)) s) (\<lambda>terms'.
       mul_inner c1 i1 rest terms'))))"

fun mul_outer :: "(nat \<times> coef) list \<Rightarrow> (nat \<times> coef) list \<Rightarrow> coef list \<Rightarrow> error + coef list" where
  "mul_outer [] other terms = Inr terms"
| "mul_outer ((i1, c1) # rest) other terms =
     (if val c1 = 0 then mul_outer rest other terms
      else ebind (mul_inner c1 i1 other terms) (\<lambda>terms'. mul_outer rest other terms'))"

definition poly_mul :: "Polynomial \<Rightarrow> Polynomial \<Rightarrow> error + Polynomial" where
  "poly_mul self other =
     (let terms = replicate (len self + len other) (PyInt 0)
      in ebind (mul_outer (enumerate 0 (rev (coefficients self)))
                          (enumerate 0 (rev (coefficients other))) terms) (\<lambda>terms'.
           Polynomial_init (rev terms') []))"

subsection \<open>Division\<close>

text \<open>
  The inner loop of \<^verbatim>\<open>__divmod__\<close>, \<^verbatim>\<open>for j in range(1, len(divisor_coeffs))\<close>, with
  \<open>qi\<close> the quotient coefficient of the current position \<open>i\<close>.
\<close>

fun div_inner :: "coef \<Rightarrow> coef list \<Rightarrow> nat \<Rightarrow> nat list \<Rightarrow> coef list \<Rightarrow> error + coef list" where
  "div_inner qi divisor_coeffs i [] remainder_coeffs = Inr remainder_coeffs"
| "div_inner qi divisor_coeffs i (j # js) remainder_coeffs =
     (let pos = i + j in
      if pos < length remainder_coeffs then
        ebind (py_index divisor_coeffs (int j)) (\<lambda>dj.
        ebind (py_mul qi dj) (\<lambda>factor.
          if val factor \<noteq> 0 then
            ebind (py_index remainder_coeffs (int pos)) (\<lambda>rp.
            ebind (py_sub rp factor) (\<lambda>v.
            ebind (py_setitem remainder_coeffs (int pos) v) (\<lambda>r'.
              div_inner qi divisor_coeffs i js r')))
          else div_inner qi divisor_coeffs i js remainder_coeffs))
      else div_inner qi divisor_coeffs i js remainder_coeffs)"

text \<open>
  The quotient coefficient: \<^verbatim>\<open>hasattr(divisor_lc, "inverse")\<close> holds exactly for a
  \<^verbatim>\<open>GF256int\<close> leading coefficient.
\<close>

definition quotient_coeff :: "coef \<Rightarrow> coef \<Rightarrow> error + coef" where
  "quotient_coeff ri divisor_lc =
     (case divisor_lc of
        GF lc \<Rightarrow>
          if lc \<noteq> 1 then ebind (inverse lc) (\<lambda>inv. py_mul ri (GF inv)) else Inr ri
      | PyInt lc \<Rightarrow> py_floordiv ri divisor_lc)"

text \<open>
  The outer loop, \<^verbatim>\<open>for i in range(len(quotient_coeffs))\<close>, on the pair of the quotient
  and remainder lists.
\<close>

fun div_outer ::
  "coef list \<Rightarrow> coef \<Rightarrow> nat list \<Rightarrow> coef list \<times> coef list \<Rightarrow> error + (coef list \<times> coef list)"
where
  "div_outer divisor_coeffs divisor_lc [] (quotient_coeffs, remainder_coeffs) =
     Inr (quotient_coeffs, remainder_coeffs)"
| "div_outer divisor_coeffs divisor_lc (i # is) (quotient_coeffs, remainder_coeffs) =
     ebind (py_index remainder_coeffs (int i)) (\<lambda>ri.
       if val ri \<noteq> 0 then
         ebind (quotient_coeff ri divisor_lc) (\<lambda>qi.
         ebind (py_setitem quotient_coeffs (int i) qi) (\<lambda>q'.
           if val qi = 0 then div_outer divisor_coeffs divisor_lc is (q', remainder_coeffs)
           else
             ebind (div_inner qi divisor_coeffs i [1..<length divisor_coeffs] remainder_coeffs)
               (\<lambda>r'. div_outer divisor_coeffs divisor_lc is (q', r'))))
       else div_outer divisor_coeffs divisor_lc is (quotient_coeffs, remainder_coeffs))"

text \<open>\<^verbatim>\<open>while len(xs) > 1 and xs[0] == 0: xs.pop(0)\<close>\<close>

fun strip_zeros :: "coef list \<Rightarrow> coef list" where
  "strip_zeros (x # y # ys) = (if val x = 0 then strip_zeros (y # ys) else x # y # ys)"
| "strip_zeros xs = xs"

text \<open>
  \<^verbatim>\<open>__divmod__\<close>.  The comparison \<^verbatim>\<open>divisor.coefficients == (0,)\<close> is by value: a
  \<^verbatim>\<open>GF256int\<close> zero equals the integer zero.
\<close>

definition poly_divmod :: "Polynomial \<Rightarrow> Polynomial \<Rightarrow> error + (Polynomial \<times> Polynomial)" where
  "poly_divmod self divisor =
     (if map val (coefficients divisor) = [0] then Inl ZeroDivisionError
      else if degree divisor > degree self then
        ebind (Polynomial_init [PyInt 0] []) (\<lambda>z. Inr (z, self))
      else
        (let dividend_coeffs = coefficients self;
             divisor_coeffs = coefficients divisor
         in ebind (py_index divisor_coeffs 0) (\<lambda>divisor_lc.
            let quotient_coeffs =
                  replicate (nat (int (length dividend_coeffs) - int (length divisor_coeffs) + 1))
                    (PyInt 0);
                remainder_coeffs = dividend_coeffs
            in ebind (div_outer divisor_coeffs divisor_lc [0..<length quotient_coeffs]
                        (quotient_coeffs, remainder_coeffs)) (\<lambda>(q, r).
               let q' = strip_zeros q;
                   r' = strip_zeros (drop (length q') r);
                   r'' = (if r' = [] then [PyInt 0] else r')
               in ebind (Polynomial_init q' []) (\<lambda>qp.
                  ebind (Polynomial_init r'' []) (\<lambda>rp. Inr (qp, rp)))))))"

definition poly_floordiv :: "Polynomial \<Rightarrow> Polynomial \<Rightarrow> error + Polynomial" where
  "poly_floordiv self other = ebind (poly_divmod self other) (\<lambda>(q, r). Inr q)"

definition poly_mod :: "Polynomial \<Rightarrow> Polynomial \<Rightarrow> error + Polynomial" where
  "poly_mod self other = ebind (poly_divmod self other) (\<lambda>(q, r). Inr r)"

text \<open>\<^verbatim>\<open>__eq__\<close>: equality of the coefficient tuples, element by element and by value.\<close>

definition poly_eq :: "Polynomial \<Rightarrow> Polynomial \<Rightarrow> bool" where
  "poly_eq self other \<longleftrightarrow> map val (coefficients self) = map val (coefficients other)"

section \<open>Auxiliary notions for the proofs\<close>

text \<open>
  The table lookups at an index known to be in range, the field elements as a set of
  integers, and the table-driven product and inverse as total functions on integers.
\<close>

definition lg :: "int \<Rightarrow> int" where
  "lg a = the (logtable ! nat a)"

definition ex :: "int \<Rightarrow> int" where
  "ex k = exptable ! nat k"

definition in_field :: "int \<Rightarrow> bool" where
  "in_field a \<longleftrightarrow> 0 \<le> a \<and> a \<le> 255"

definition gmul :: "int \<Rightarrow> int \<Rightarrow> int" where
  "gmul a b = (if a = 0 \<or> b = 0 then 0 else ex ((lg a + lg b) mod 255))"

definition ginv :: "int \<Rightarrow> int" where
  "ginv a = ex (255 - lg a)"

text \<open>
  One step of the reference multiplication on \<open>p\<close>, and the value the loop adds to its
  accumulator.
\<close>

definition xtime :: "int \<Rightarrow> int" where
  "xtime p = (let p' = push_bit 1 p in if p' AND 0x100 \<noteq> 0 then p' XOR 0x11b else p')"

function pmul :: "int \<Rightarrow> int \<Rightarrow> int" where
  "pmul p b =
     (if b \<le> 0 then 0
      else (if b AND 1 \<noteq> 0 then p else 0) XOR pmul (xtime p) (drop_bit 1 b))"
  by pat_completeness auto
termination
  by (relation "measure (\<lambda>(p, b). nat b)") (auto simp: drop_bit_eq_div)

section \<open>Notions the claims about polynomials are stated with\<close>

text \<open>
  A coefficient of a polynomial over GF(256): a \<^verbatim>\<open>GF256int\<close> instance, whose value
  lies in \<open>[0, 255]\<close>, or the plain integer 0, which the class itself puts into
  coefficient tuples (\<^verbatim>\<open>[0] * n\<close>, \<^verbatim>\<open>(0,) * diff\<close>, \<^verbatim>\<open>c.append(0)\<close>).
\<close>

definition gfc :: "coef \<Rightarrow> bool" where
  "gfc c = (case c of GF a \<Rightarrow> in_field a | PyInt i \<Rightarrow> i = 0)"

definition gf_poly :: "Polynomial \<Rightarrow> bool" where
  "gf_poly p \<longleftrightarrow> coefficients p \<noteq> [] \<and> list_all gfc (coefficients p)"

text \<open>
  The invariant of the data model: no leading zero coefficient, except in the zero
  polynomial, which is the single coefficient 0.
\<close>

definition normalized :: "Polynomial \<Rightarrow> bool" where
  "normalized p \<longleftrightarrow>
     (case coefficients p of [] \<Rightarrow> False | c # cs \<Rightarrow> val c = 0 \<longrightarrow> cs = [])"

definition is_zero :: "Polynomial \<Rightarrow> bool" where
  "is_zero p \<longleftrightarrow> map val (coefficients p) = [0]"

text \<open>
  The expression \<^verbatim>\<open>(p // d) * d + (p % d) == p\<close>, evaluated from left to right.
\<close>

definition divmod_identity :: "Polynomial \<Rightarrow> Polynomial \<Rightarrow> error + bool" where
  "divmod_identity p d =
     ebind (poly_floordiv p d) (\<lambda>q.
     ebind (poly_mul q d) (\<lambda>qd.
     ebind (poly_mod p d) (\<lambda>r.
     ebind (poly_add qd r) (\<lambda>s. Inr (poly_eq s p)))))"

section \<open>The algorithms on lists of values\<close>

text \<open>
  What the constructor does to a dense coefficient list, on coefficients and on their
  values, and the zero padding of \<^verbatim>\<open>__add__\<close>.
\<close>

definition cnorm :: "coef list \<Rightarrow> coef list" where
  "cnorm cs = (let c = dropWhile (\<lambda>x. val x = 0) cs in if c = [] then [PyInt 0] else c)"

definition vnorm :: "int list \<Rightarrow> int list" where
  "vnorm xs = (let c = dropWhile (\<lambda>x. x = 0) xs in if c = [] then [0] else c)"

definition pad :: "nat \<Rightarrow> int list \<Rightarrow> int list" where
  "pad k xs = replicate k 0 @ xs"

text \<open>
  \<open>xor_prefix xs ys\<close> adds \<open>ys\<close> to the front of \<open>xs\<close>, and \<open>xor_at k ys xs\<close> adds it
  from position \<open>k\<close> on: the effect of one run of an inner loop on the values of the list
  it updates, addition and subtraction in the field both being XOR.
\<close>

fun xor_prefix :: "int list \<Rightarrow> int list \<Rightarrow> int list" where
  "xor_prefix (x # xs) (y # ys) = (x XOR y) # xor_prefix xs ys"
| "xor_prefix xs ys = xs"

definition xor_at :: "nat \<Rightarrow> int list \<Rightarrow> int list \<Rightarrow> int list" where
  "xor_at k ws xs = take k xs @ xor_prefix (drop k xs) ws"

text \<open>
  Long division on values, for \<open>k\<close> quotient positions: \<open>dt\<close> is the divisor without its
  leading coefficient and \<open>c\<close> the inverse of that coefficient.  The result is the
  quotient and what is left of the dividend behind the quotient positions.
\<close>

fun vdiv :: "nat \<Rightarrow> int list \<Rightarrow> int \<Rightarrow> int list \<Rightarrow> int list \<times> int list" where
  "vdiv 0 dt c xs = ([], xs)"
| "vdiv (Suc k) dt c [] = ([], [])"
| "vdiv (Suc k) dt c (x # xs) =
     (let qi = gmul x c; (q, rem) = vdiv k dt c (xor_prefix xs (map (gmul qi) dt))
      in (qi # q, rem))"

text \<open>
  The product of a list of values with the divisor \<open>lc # dt\<close>, highest power first, and
  the accumulation of \<^verbatim>\<open>__mul__\<close> on the reversed lists, lowest power first.
\<close>

fun vmul :: "int list \<Rightarrow> int \<Rightarrow> int list \<Rightarrow> int list" where
  "vmul [] lc dt = replicate (length dt) 0"
| "vmul (a # as) lc dt = gmul a lc # xor_prefix (vmul as lc dt) (map (gmul a) dt)"

fun lconv :: "nat \<Rightarrow> int list \<Rightarrow> int list \<Rightarrow> int list \<Rightarrow> int list" where
  "lconv i1 [] dv ts = ts"
| "lconv i1 (x # xs) dv ts = lconv (Suc i1) xs dv (xor_at i1 (map (gmul x) dv) ts)"

section \<open>Properties of the field\<close>

subsection \<open>The tables\<close>

lemma len_tables: "length exptable = 256" "length logtable = 256"
  by (simp_all add: exptable_def logtable_def)

lemma scan_log: "\<forall>a\<in>set [1..255]. logtable ! nat a = Some (lg a) \<and> 0 \<le> lg a \<and> lg a \<le> 254 \<and> ex (lg a) = a"
  by code_simp

lemma scan_exp: "\<forall>k\<in>set [0..254]. logtable ! nat (ex k) = Some k \<and> 1 \<le> ex k \<and> ex k \<le> 255"
  by code_simp

lemma scan_chain: "\<forall>k\<in>set [0..254]. pmul (ex k) 3 = ex (k + 1)"
  by code_simp

lemma scan_modulus: "\<forall>x\<in>set [0..255]. pmul x 0x11b = 0"
  by code_simp

lemma ex_0: "ex 0 = 1" and ex_255: "ex 255 = 1"
  by code_simp+

lemma log_facts:
  assumes "1 \<le> a" "a \<le> 255"
  shows "logtable ! nat a = Some (lg a)" "0 \<le> lg a" "lg a \<le> 254" "ex (lg a) = a"
  using scan_log assms by (auto simp: set_upto)

lemma exp_facts:
  assumes "0 \<le> k" "k \<le> 254"
  shows "logtable ! nat (ex k) = Some k" "1 \<le> ex k" "ex k \<le> 255"
  using scan_exp assms by (auto simp: set_upto)

lemma lg_ex: "0 \<le> k \<Longrightarrow> k \<le> 254 \<Longrightarrow> lg (ex k) = k"
  by (simp add: lg_def exp_facts)

lemma xtime_alt: "xtime p = push_bit 1 p XOR (if bit p 7 then 0x11b else 0)"
proof -
  have "push_bit 1 p AND 0x100 \<noteq> 0 \<longleftrightarrow> bit p 7"
  proof -
    have "push_bit 1 p AND 0x100 = push_bit 1 p AND 2 ^ 8" by simp
    then show ?thesis
      by (simp only: and_exp_eq_0_iff_not_bit bit_push_bit_iff) (simp add: possible_bit_def)
  qed
  then show ?thesis by (simp add: xtime_def Let_def)
qed

lemma xtime_xor: "xtime (p XOR q) = xtime p XOR xtime q"
  by (auto simp: xtime_alt push_bit_xor bit_xor_iff xor.assoc xor.left_commute)

lemma xtime_0: "xtime 0 = 0"
  by (simp add: xtime_alt)

declare multiply_loop.simps [simp del] pmul.simps [simp del]

lemma pmul_0_left: "pmul 0 b = 0"
proof (induction "0::int" b rule: pmul.induct)
  case (1 b)
  show ?case
    by (subst pmul.simps) (use 1 in \<open>simp add: xtime_0\<close>)
qed

lemma multiply_loop_pmul: "0 \<le> b \<Longrightarrow> multiply_loop p b r = Some (r XOR pmul p b)"
proof (induction p b r rule: multiply_loop.induct)
  case (1 p b r)
  show ?case
  proof (cases "b = 0")
    case True
    then show ?thesis by (simp add: multiply_loop.simps pmul.simps)
  next
    case False
    with "1.prems" have pos: "0 < b" by simp
    have nn: "0 \<le> drop_bit 1 b" using pos by simp
    have nz: "\<not> b < 0" "\<not> b \<le> 0" using pos by simp_all
    note IH = "1.IH"[OF False nz(1) refl refl refl refl nn]
    show ?thesis
      apply (subst multiply_loop.simps)
      apply (subst pmul.simps)
      apply (simp only: False nz if_False Let_def IH)
      apply (simp add: xtime_def Let_def xor.assoc)
      done
  qed
qed


lemma pmul_0_right: "pmul p 0 = 0"
  by (simp add: pmul.simps)

lemma pmul_unfold:
  "0 \<le> b \<Longrightarrow> pmul p b = (if odd b then p else 0) XOR pmul (xtime p) (b div 2)"
  by (subst pmul.simps) (auto simp: pmul_0_right and_one_eq drop_bit_eq_div mod_2_eq_odd)

lemma pmul_xor_right: "0 \<le> b \<Longrightarrow> 0 \<le> c \<Longrightarrow> pmul p (b XOR c) = pmul p b XOR pmul p c"
proof (induction p b arbitrary: c rule: pmul.induct)
  case (1 p b)
  show ?case
  proof (cases "b = 0")
    case True
    then show ?thesis by (simp add: pmul_0_right)
  next
    case False
    with "1.prems" have "\<not> b \<le> 0" by simp
    moreover have "0 \<le> drop_bit 1 b" "0 \<le> c div 2" using "1.prems" by simp_all
    ultimately have IH: "pmul (xtime p) (b div 2 XOR c div 2)
        = pmul (xtime p) (b div 2) XOR pmul (xtime p) (c div 2)"
      using "1.IH"[of "c div 2"] by (simp add: drop_bit_eq_div)
    have nn: "0 \<le> b XOR c" using "1.prems" by simp
    have d: "(b XOR c) div 2 = b div 2 XOR c div 2"
      using drop_bit_xor[of 1 b c] by (simp add: drop_bit_eq_div)
    show ?thesis
      apply (subst pmul_unfold[OF nn])
      apply (subst pmul_unfold[OF "1.prems"(1)])
      apply (subst pmul_unfold[OF "1.prems"(2)])
      apply (simp only: d IH even_xor_iff)
      apply (auto simp: xor.assoc xor.left_commute)
      done
  qed
qed

lemma pmul_xtime_left: "0 \<le> b \<Longrightarrow> pmul (xtime p) b = xtime (pmul p b)"
proof (induction p b rule: pmul.induct)
  case (1 p b)
  show ?case
  proof (cases "b = 0")
    case True
    then show ?thesis by (simp add: pmul_0_right xtime_0)
  next
    case False
    with "1.prems" have nle: "\<not> b \<le> 0" by simp
    have "0 \<le> drop_bit 1 b" using "1.prems" by simp
    with "1.IH"[OF nle] have IH: "pmul (xtime (xtime p)) (b div 2) = xtime (pmul (xtime p) (b div 2))"
      by (simp add: drop_bit_eq_div)
    have "pmul (xtime p) b = (if odd b then xtime p else 0) XOR pmul (xtime (xtime p)) (b div 2)"
      by (rule pmul_unfold[OF "1.prems"])
    also have "\<dots> = xtime ((if odd b then p else 0) XOR pmul (xtime p) (b div 2))"
      by (simp add: IH xtime_xor xtime_0)
    also have "\<dots> = xtime (pmul p b)"
      by (simp only: pmul_unfold[OF "1.prems", of p])
    finally show ?thesis .
  qed
qed

lemma pmul_double: "0 \<le> b \<Longrightarrow> pmul p (b * 2) = xtime (pmul p b)"
proof -
  assume b: "0 \<le> b"
  then have "0 \<le> b * 2" by simp
  from pmul_unfold[OF this, of p] show ?thesis
    by (simp add: pmul_xtime_left[OF b])
qed

lemma pmul_modulus: "0 \<le> x \<Longrightarrow> x \<le> 255 \<Longrightarrow> pmul x 0x11b = 0"
  using scan_modulus by (auto simp: set_upto)

lemma pmul_xtime_right:
  assumes "0 \<le> x" "x \<le> 255" "0 \<le> y"
  shows "pmul x (xtime y) = xtime (pmul x y)"
proof -
  have d: "pmul x (y * 2) = xtime (pmul x y)"
    by (rule pmul_double[OF assms(3)])
  show ?thesis
  proof (cases "bit y 7")
    case False
    then have "xtime y = y * 2" by (simp add: xtime_alt[of y] push_bit_eq_mult)
    then show ?thesis by (simp only: d)
  next
    case True
    then have "xtime y = y * 2 XOR 0x11b"
      by (simp add: xtime_alt[of y] push_bit_eq_mult)
    moreover have "pmul x (y * 2 XOR 0x11b) = pmul x (y * 2) XOR pmul x 0x11b"
      using assms by (intro pmul_xor_right) simp_all
    ultimately show ?thesis
      using pmul_modulus[OF assms(1,2)] by (simp only: d) simp
  qed
qed

lemma pmul_3: "pmul y 3 = y XOR xtime y"
proof -
  have "pmul y 3 = y XOR pmul (xtime y) 1"
    using pmul_unfold[of 3 y] by simp
  also have "pmul (xtime y) 1 = xtime y"
    using pmul_unfold[of 1 "xtime y"] by (simp add: pmul_0_right)
  finally show ?thesis .
qed

lemma pmul_1: "pmul y 1 = y"
  using pmul_unfold[of 1 y] by (simp add: pmul_0_right)

lemma xtime_nonneg: "0 \<le> y \<Longrightarrow> 0 \<le> xtime y"
  by (simp add: xtime_alt)

lemma pmul_assoc_3:
  assumes "0 \<le> x" "x \<le> 255" "0 \<le> y"
  shows "pmul x (pmul y 3) = pmul (pmul x y) 3"
proof -
  have "pmul x (y XOR xtime y) = pmul x y XOR pmul x (xtime y)"
    using assms by (intro pmul_xor_right) (simp_all add: xtime_nonneg)
  then show ?thesis
    using assms by (simp add: pmul_3 pmul_xtime_right)
qed

lemma ex_succ:
  assumes "0 \<le> k" "k \<le> 254"
  shows "pmul (ex k) 3 = ex ((k + 1) mod 255)"
proof (cases "k = 254")
  case True
  then show ?thesis using scan_chain assms by (auto simp: set_upto ex_255 ex_0)
next
  case False
  with assms have "(k + 1) mod 255 = k + 1" by simp
  then show ?thesis using scan_chain assms by (auto simp: set_upto)
qed

lemma pmul_ex:
  assumes "0 \<le> i" "i \<le> 254"
  shows "j \<le> 254 \<Longrightarrow> pmul (ex i) (ex (int j)) = ex ((i + int j) mod 255)"
proof (induction j)
  case 0
  then show ?case using assms by (simp add: ex_0 pmul_1)
next
  case (Suc j)
  then have j: "0 \<le> int j" "int j \<le> 254" by simp_all
  have r: "0 \<le> ex i" "ex i \<le> 255" "0 \<le> ex (int j)"
    using exp_facts[OF assms] exp_facts[OF j] by simp_all
  have m: "0 \<le> (i + int j) mod 255" "(i + int j) mod 255 \<le> 254" by simp_all
  have "ex (int (Suc j)) = pmul (ex (int j)) 3"
    using ex_succ[OF j] Suc.prems by (simp add: add.commute)
  then have "pmul (ex i) (ex (int (Suc j))) = pmul (pmul (ex i) (ex (int j))) 3"
    by (simp add: pmul_assoc_3[OF r])
  also have "\<dots> = pmul (ex ((i + int j) mod 255)) 3"
    using Suc by simp
  also have "\<dots> = ex (((i + int j) mod 255 + 1) mod 255)"
    by (rule ex_succ[OF m])
  also have "((i + int j) mod 255 + 1) mod 255 = (i + int (Suc j)) mod 255"
  proof -
    have "((i + int j) mod 255 + 1) mod 255 = (i + int j + 1) mod 255"
      by (simp add: mod_add_left_eq)
    also have "i + int j + 1 = i + int (Suc j)" by simp
    finally show ?thesis .
  qed
  finally show ?case .
qed


lemma py_index_logtable: "0 \<le> i \<Longrightarrow> i \<le> 255 \<Longrightarrow> py_index logtable i = Inr (logtable ! nat i)"
  by (simp add: py_index_def len_tables)

lemma py_index_exptable: "0 \<le> i \<Longrightarrow> i \<le> 255 \<Longrightarrow> py_index exptable i = Inr (ex i)"
  by (simp add: py_index_def len_tables ex_def)

lemma ex_range: "0 \<le> k \<Longrightarrow> k \<le> 255 \<Longrightarrow> 1 \<le> ex k \<and> ex k \<le> 255"
  using exp_facts[of k] ex_255 by (cases "k = 255") auto

lemma GF256int_ok: "0 \<le> v \<Longrightarrow> v \<le> 255 \<Longrightarrow> GF256int v = Inr v"
  by (simp add: GF256int_def)

lemma gf_mul_eq:
  assumes "in_field a" "in_field b"
  shows "gf_mul a b = Inr (gmul a b)"
proof (cases "a = 0 \<or> b = 0")
  case True
  then show ?thesis by (auto simp: gf_mul_def gmul_def GF256int_def)
next
  case False
  with assms have a: "1 \<le> a" "a \<le> 255" and b: "1 \<le> b" "b \<le> 255"
    by (auto simp: in_field_def)
  let ?z = "(lg a + lg b) mod 255"
  have z: "0 \<le> ?z" "?z \<le> 255" by simp_all
  show ?thesis
    using False a b log_facts(1)[OF a] log_facts(1)[OF b] ex_range[OF z]
    by (simp add: gf_mul_def gmul_def ebind_def py_index_logtable py_index_exptable z GF256int_ok)
qed

lemma gmul_range: "0 \<le> gmul a b \<and> gmul a b \<le> 255"
proof -
  have "0 \<le> (lg a + lg b) mod 255" "(lg a + lg b) mod 255 \<le> 255" by simp_all
  from ex_range[OF this] show ?thesis by (simp add: gmul_def)
qed

lemma gmul_pmul:
  assumes "in_field a" "in_field b"
  shows "gmul a b = pmul a b"
proof (cases "a = 0 \<or> b = 0")
  case True
  then show ?thesis by (auto simp: gmul_def pmul_0_left pmul_0_right)
next
  case False
  with assms have a: "1 \<le> a" "a \<le> 255" and b: "1 \<le> b" "b \<le> 255"
    by (auto simp: in_field_def)
  note la = log_facts[OF a] and lb = log_facts[OF b]
  have "pmul (ex (lg a)) (ex (int (nat (lg b)))) = ex ((lg a + int (nat (lg b))) mod 255)"
    using la lb by (intro pmul_ex) auto
  then show ?thesis using False la lb by (simp add: gmul_def)
qed

lemma mem_logtable: "1 \<le> a \<Longrightarrow> a \<le> 254 \<Longrightarrow> Some a \<in> set logtable"
proof -
  assume a: "1 \<le> a" "a \<le> 254"
  then have k: "0 \<le> a" by simp
  from exp_facts[OF k a(2)] have "logtable ! nat (ex a) = Some a" "nat (ex a) < length logtable"
    by (simp_all add: len_tables)
  then show ?thesis by (metis nth_mem)
qed

lemma lg_255: "lg 255 = 7"
  by code_simp

lemma inverse_traced_eq:
  assumes "1 \<le> a" "a \<le> 255"
  shows "inverse_traced a = Inr (if a = 255 then PatchBranch else TableBranch, ginv a)"
proof (cases "a = 255")
  case True
  have "1 \<le> ex 248 \<and> ex 248 \<le> 255" by (rule ex_range) simp_all
  then show ?thesis using True
    by (simp add: inverse_traced_def ginv_def lg_255 ebind_def py_index_exptable GF256int_ok)
next
  case False
  with assms have a: "1 \<le> a" "a \<le> 254" by simp_all
  note la = log_facts[OF assms]
  have i: "0 \<le> 255 - lg a" "255 - lg a \<le> 255" using la by simp_all
  have pl: "py_index logtable a = Inr (Some (lg a))"
    using py_index_logtable[of a] assms la(1) by simp
  have pe: "py_index exptable (255 - lg a) = Inr (ex (255 - lg a))"
    by (rule py_index_exptable[OF i])
  have g: "GF256int (ex (255 - lg a)) = Inr (ex (255 - lg a))"
    using ex_range[OF i] by (simp add: GF256int_ok)
  show ?thesis
    using False a mem_logtable[OF a]
    by (simp add: inverse_traced_def ginv_def ebind_def pl pe g)
qed

lemma inverse_eq: "1 \<le> a \<Longrightarrow> a \<le> 255 \<Longrightarrow> inverse a = Inr (ginv a)"
  by (simp add: inverse_def inverse_traced_eq ebind_def)

lemma ginv_range: "1 \<le> a \<Longrightarrow> a \<le> 255 \<Longrightarrow> 1 \<le> ginv a \<and> ginv a \<le> 255"
  unfolding ginv_def using log_facts[of a] by (intro ex_range) auto

lemma lg_ginv:
  assumes "1 \<le> a" "a \<le> 255"
  shows "lg (ginv a) = (255 - lg a) mod 255"
proof (cases "lg a = 0")
  case True
  then show ?thesis using lg_ex[of 0] by (simp add: ginv_def ex_255 ex_0)
next
  case False
  then have b: "0 \<le> 255 - lg a" "255 - lg a \<le> 254" using log_facts[OF assms] by simp_all
  then have "(255 - lg a) mod 255 = 255 - lg a"
    by (intro mod_pos_pos_trivial) simp_all
  then show ?thesis using lg_ex[OF b] by (simp only: ginv_def)
qed

lemma gmul_ginv_cancel:
  assumes "in_field x" "1 \<le> a" "a \<le> 255"
  shows "gmul (gmul x (ginv a)) a = x"
proof (cases "x = 0")
  case True
  then show ?thesis by (simp add: gmul_def)
next
  case False
  with assms have x: "1 \<le> x" "x \<le> 255" by (auto simp: in_field_def)
  note lx = log_facts[OF x] and la = log_facts[OF assms(2,3)] and gi = ginv_range[OF assms(2,3)]
  let ?k = "(lg x + lg (ginv a)) mod 255"
  have k: "0 \<le> ?k" "?k \<le> 254" by simp_all
  have nz: "ex ?k \<noteq> 0" using exp_facts[OF k] by simp
  have "(?k + lg a) mod 255 = lg x"
    using lx la by (simp add: lg_ginv[OF assms(2,3)] mod_simps)
  then show ?thesis
    using False gi assms nz lx by (simp add: gmul_def lg_ex[OF k])
qed

section \<open>Properties of the polynomial operations\<close>

lemma length_xor_prefix [simp]: "length (xor_prefix xs ys) = length xs"
  by (induction xs ys rule: xor_prefix.induct) simp_all

lemma xor_prefix_Nil [simp]: "xor_prefix xs [] = xs"
  by (cases xs) simp_all

lemma xor_prefix_twice: "xor_prefix (xor_prefix xs ys) ys = xs"
  by (induction xs ys rule: xor_prefix.induct) (simp_all add: xor.assoc)

lemma map2_xor_prefix:
  "length vs = length zs \<Longrightarrow>
     map2 (XOR) (xor_prefix vs ws) zs = xor_prefix (map2 (XOR) vs zs) ws"
proof (induction vs ws arbitrary: zs rule: xor_prefix.induct)
  case (1 x xs y ys)
  then show ?case by (cases zs) (simp_all add: xor.assoc xor.commute xor.left_commute)
qed simp_all

lemma in_field_xor: "in_field a \<Longrightarrow> in_field b \<Longrightarrow> in_field (a XOR b)"
proof -
  assume "in_field a" "in_field b"
  then have a: "0 \<le> a" "a < 2 ^ 8" and b: "0 \<le> b" "b < 2 ^ 8" by (simp_all add: in_field_def)
  have "a XOR b < 2 ^ 8" by (rule XOR_upper[OF a b(2)])
  then show ?thesis using a b by (simp add: in_field_def)
qed

lemma in_field_gmul: "in_field (gmul a b)"
  using gmul_range[of a b] by (simp add: in_field_def)

lemma list_all_xor_prefix:
  "list_all in_field xs \<Longrightarrow> list_all in_field ys \<Longrightarrow> list_all in_field (xor_prefix xs ys)"
  by (induction xs ys rule: xor_prefix.induct) (simp_all add: in_field_xor)

lemma length_vdiv:
  "k \<le> length xs \<Longrightarrow>
     length (fst (vdiv k dt c xs)) = k \<and> length (snd (vdiv k dt c xs)) = length xs - k"
proof (induction k arbitrary: xs)
  case 0
  then show ?case by simp
next
  case (Suc k)
  then obtain x xs' where xs: "xs = x # xs'" by (cases xs) auto
  with Suc.prems have "k \<le> length (xor_prefix xs' (map (gmul (gmul x c)) dt))" by simp
  from Suc.IH[OF this] show ?case
    by (auto simp: xs Let_def split: prod.splits)
qed

lemma length_vmul [simp]: "length (vmul q lc dt) = length q + length dt"
  by (induction q) simp_all

lemma vdiv_vmul:
  assumes cancel: "\<And>x. in_field x \<Longrightarrow> gmul (gmul x c) lc = x"
  shows "length xs = k + length dt \<Longrightarrow> list_all in_field xs \<Longrightarrow>
     map2 (XOR) (vmul (fst (vdiv k dt c xs)) lc dt) (replicate k 0 @ snd (vdiv k dt c xs)) = xs"
proof (induction k arbitrary: xs)
  case 0
  then show ?case by (simp add: map2_map_map zip_replicate1 map_idI)
next
  case (Suc k)
  then obtain x xs' where xs: "xs = x # xs'" by (cases xs) auto
  let ?qi = "gmul x c"
  let ?w = "map (gmul ?qi) dt"
  let ?xs1 = "xor_prefix xs' ?w"
  obtain q rem where v: "vdiv k dt c ?xs1 = (q, rem)" by (cases "vdiv k dt c ?xs1")
  have f: "list_all in_field ?xs1"
    using Suc.prems xs by (intro list_all_xor_prefix) (simp_all add: list_all_iff in_field_gmul)
  have len: "length ?xs1 = k + length dt" using Suc.prems xs by simp
  from Suc.IH[OF len f] v
  have IH: "map2 (XOR) (vmul q lc dt) (replicate k 0 @ rem) = ?xs1" by simp
  have lq: "length q = k" "length rem = length dt"
    using length_vdiv[of k ?xs1 dt c] len v by simp_all
  have "map2 (XOR) (xor_prefix (vmul q lc dt) ?w) (replicate k 0 @ rem)
          = xor_prefix (map2 (XOR) (vmul q lc dt) (replicate k 0 @ rem)) ?w"
    by (rule map2_xor_prefix) (simp add: lq)
  also have "\<dots> = xs'" by (simp only: IH xor_prefix_twice)
  finally show ?case
    using Suc.prems cancel[of x] by (simp add: xs v Let_def)
qed

lemma gfc_val: "gfc c \<Longrightarrow> in_field (val c)"
  by (cases c) (simp_all add: gfc_def in_field_def)

lemma gmul_0 [simp]: "gmul 0 y = 0" "gmul x 0 = 0"
  by (simp_all add: gmul_def)

lemma gmul_comm: "gmul a b = gmul b a"
  by (simp add: gmul_def add.commute disj_commute)

lemma gf_add_ok: "in_field a \<Longrightarrow> in_field b \<Longrightarrow> gf_add a b = Inr (a XOR b)"
  using in_field_xor[of a b] by (simp add: gf_add_def GF256int_ok in_field_def)

lemma py_add_gf:
  assumes "gfc x" "gfc y"
  shows "\<exists>z. py_add x y = Inr z \<and> gfc z \<and> val z = val x XOR val y"
proof (cases x)
  case (PyInt a)
  show ?thesis
  proof (cases y)
    case (PyInt b)
    with \<open>x = PyInt a\<close> assms show ?thesis by (simp add: gfc_def)
  next
    case (GF b)
    with \<open>x = PyInt a\<close> assms show ?thesis
      by (simp add: gfc_def gf_add_ok as_GF_def in_field_def)
  qed
next
  case (GF a)
  with assms gfc_val[OF assms(2)] in_field_xor[of a "val y"] show ?thesis
    by (simp add: gfc_def gf_add_ok as_GF_def)
qed

lemma py_sub_gf:
  assumes "gfc x" "gfc y"
  shows "\<exists>z. py_sub x y = Inr z \<and> gfc z \<and> val z = val x XOR val y"
proof (cases x)
  case (PyInt a)
  show ?thesis
  proof (cases y)
    case (PyInt b)
    with \<open>x = PyInt a\<close> assms show ?thesis by (simp add: gfc_def)
  next
    case (GF b)
    with \<open>x = PyInt a\<close> assms show ?thesis
      by (simp add: gfc_def gf_add_ok as_GF_def in_field_def)
  qed
next
  case (GF a)
  with assms gfc_val[OF assms(2)] in_field_xor[of a "val y"] show ?thesis
    by (simp add: gfc_def gf_add_ok as_GF_def)
qed

lemma py_mul_gf:
  assumes "gfc x" "gfc y"
  shows "\<exists>z. py_mul x y = Inr z \<and> gfc z \<and> val z = gmul (val x) (val y)"
proof (cases x)
  case (PyInt a)
  show ?thesis
  proof (cases y)
    case (PyInt b)
    with \<open>x = PyInt a\<close> assms show ?thesis by (simp add: gfc_def)
  next
    case (GF b)
    with \<open>x = PyInt a\<close> assms show ?thesis
      by (simp add: gfc_def gf_mul_eq as_GF_def in_field_def)
  qed
next
  case (GF a)
  with assms gfc_val[OF assms(2)] in_field_gmul[of a "val y"] show ?thesis
    by (simp add: gfc_def gf_mul_eq as_GF_def)
qed

lemma lg_1: "lg 1 = 0"
  using lg_ex[of 0] by (simp add: ex_0)

lemma ginv_1: "ginv 1 = 1"
  by (simp add: ginv_def lg_1 ex_255)

lemma gmul_1_right: "in_field x \<Longrightarrow> gmul x 1 = x"
proof (cases "x = 0")
  case False
  assume "in_field x"
  with False have x: "1 \<le> x" "x \<le> 255" by (simp_all add: in_field_def)
  from log_facts[OF x] have "(lg x + 0) mod 255 = lg x" by simp
  with log_facts(4)[OF x] False show ?thesis by (simp add: gmul_def lg_1)
qed simp

lemma gmul_nonzero:
  assumes "in_field x" "in_field y" "x \<noteq> 0" "y \<noteq> 0"
  shows "gmul x y \<noteq> 0"
proof -
  have "0 \<le> (lg x + lg y) mod 255" "(lg x + lg y) mod 255 \<le> 255" by simp_all
  from ex_range[OF this] assms show ?thesis by (simp add: gmul_def)
qed

lemma quotient_coeff_gf:
  assumes "gfc ri" "1 \<le> lc" "lc \<le> 255"
  shows "\<exists>qi. quotient_coeff ri (GF lc) = Inr qi \<and> gfc qi \<and> val qi = gmul (val ri) (ginv lc)"
proof (cases "lc = 1")
  case True
  then show ?thesis
    using assms gmul_1_right[OF gfc_val[OF assms(1)]] by (simp add: quotient_coeff_def ginv_1)
next
  case False
  have g: "gfc (GF (ginv lc))"
    using ginv_range[OF assms(2,3)] by (simp add: gfc_def in_field_def)
  from py_mul_gf[OF assms(1) g] False show ?thesis
    by (simp add: quotient_coeff_def inverse_eq[OF assms(2,3)] ebind_def)
qed

lemma xor_at_Nil [simp]: "xor_at k [] xs = xs"
  by (simp add: xor_at_def)

lemma length_xor_at [simp]: "length (xor_at k ws xs) = length xs"
  by (simp add: xor_at_def)

lemma xor_at_step:
  "k < length xs \<Longrightarrow> xor_at k (w # ws) xs = xor_at (Suc k) ws (xs[k := xs ! k XOR w])"
proof -
  assume k: "k < length xs"
  then have d: "drop k xs = xs ! k # drop (Suc k) xs" by (simp add: Cons_nth_drop_Suc)
  have "take (Suc k) (xs[k := xs ! k XOR w]) = take k xs @ [xs ! k XOR w]"
    using k by (simp add: take_Suc_conv_app_nth)
  then show ?thesis by (simp add: xor_at_def d)
qed

lemma py_index_nat: "i < length xs \<Longrightarrow> py_index xs (int i) = Inr (xs ! i)"
  by (simp add: py_index_def)

lemma py_setitem_nat: "i < length xs \<Longrightarrow> py_setitem xs (int i) v = Inr (xs[i := v])"
  by (simp add: py_setitem_def)

lemma list_all_update: "list_all P xs \<Longrightarrow> P v \<Longrightarrow> list_all P (xs[i := v])"
  by (auto simp: list_all_iff dest: set_update_subset_insert[THEN subsetD])

lemma div_inner_gf:
  assumes "gfc qi" "list_all gfc d" "i + length d \<le> n"
  shows "j0 \<le> length d \<Longrightarrow> list_all gfc r \<Longrightarrow> length r = n \<Longrightarrow>
     \<exists>r'. div_inner qi d i [j0..<length d] r = Inr r' \<and> list_all gfc r' \<and> length r' = n \<and>
          map val r' = xor_at (i + j0) (map (gmul (val qi)) (drop j0 (map val d))) (map val r)"
proof (induction "length d - j0" arbitrary: j0 r)
  case 0
  then show ?case by simp
next
  case (Suc k)
  then have j: "j0 < length d" by simp
  then have up: "[j0..<length d] = j0 # [Suc j0..<length d]" by (simp add: upt_conv_Cons)
  have pos: "i + j0 < length r" using j assms(3) Suc.prems by simp
  have gd: "gfc (d ! j0)" using assms(2) j by (simp add: list_all_length)
  from py_mul_gf[OF assms(1) gd] obtain factor where
    f: "py_mul qi (d ! j0) = Inr factor" "gfc factor" "val factor = gmul (val qi) (val (d ! j0))"
    by auto
  have gr: "gfc (r ! (i + j0))" using Suc.prems pos by (simp add: list_all_length)
  from py_sub_gf[OF gr f(2)] obtain v where
    v: "py_sub (r ! (i + j0)) factor = Inr v" "gfc v" "val v = val (r ! (i + j0)) XOR val factor"
    by auto
  let ?r1 = "if val factor \<noteq> 0 then r[i + j0 := v] else r"
  have step: "div_inner qi d i [j0..<length d] r = div_inner qi d i [Suc j0..<length d] ?r1"
    using pos j by (simp add: up Let_def py_index_nat py_setitem_nat f v ebind_def del: upt_Suc of_nat_add)
  have g1: "list_all gfc ?r1" using Suc.prems v(2) by (simp add: list_all_update)
  have l1: "length ?r1 = n" using Suc.prems by simp
  have k: "k = length d - Suc j0" using Suc(2) by simp
  have j1: "Suc j0 \<le> length d" using j by simp
  have v1: "map val ?r1 = (map val r)[i + j0 := map val r ! (i + j0) XOR gmul (val qi) (val (d ! j0))]"
  proof (cases "val factor = 0")
    case True
    have "(map val r)[i + j0 := map val r ! (i + j0)] = map val r" by (rule list_update_id)
    then show ?thesis using True f(3) by simp
  next
    case False
    then show ?thesis using pos v(3) f(3) by (simp add: map_update)
  qed
  have dr: "drop j0 (map val d) = val (d ! j0) # drop (Suc j0) (map val d)"
    using j by (simp add: Cons_nth_drop_Suc[symmetric])
  from Suc(1)[OF k j1 g1 l1] obtain r' where
    r': "div_inner qi d i [Suc j0..<length d] ?r1 = Inr r'" "list_all gfc r'" "length r' = n"
      "map val r' = xor_at (i + Suc j0) (map (gmul (val qi)) (drop (Suc j0) (map val d))) (map val ?r1)"
    by blast
  have "xor_at (i + j0) (map (gmul (val qi)) (drop j0 (map val d))) (map val r)
      = xor_at (i + Suc j0) (map (gmul (val qi)) (drop (Suc j0) (map val d))) (map val ?r1)"
    using pos by (simp only: dr v1 list.map xor_at_step length_map add_Suc_right)
  with r' step show ?case by simp
qed

lemma xor_prefix_zeros: "xor_prefix xs (map (gmul 0) ys) = xs"
  by (induction xs ys rule: xor_prefix.induct) simp_all

lemma xor_at_zeros: "xor_at k (map (gmul 0) ys) xs = xs"
  by (simp add: xor_at_def xor_prefix_zeros)

lemma drop_xor_at: "k \<le> length xs \<Longrightarrow> drop k (xor_at k ws xs) = xor_prefix (drop k xs) ws"
  by (simp add: xor_at_def)

lemma take_xor_at: "k \<le> length xs \<Longrightarrow> take k (xor_at k ws xs) = take k xs"
  by (simp add: xor_at_def)

lemma div_outer_gf:
  assumes d: "list_all gfc d" "length d = m" "1 \<le> m" and lc: "1 \<le> lc" "lc \<le> 255"
    and n: "n + 1 = nq + m"
  shows "i0 \<le> nq \<Longrightarrow> list_all gfc q \<Longrightarrow> length q = nq \<Longrightarrow> list_all gfc r \<Longrightarrow> length r = n \<Longrightarrow>
     \<forall>j<nq. i0 \<le> j \<longrightarrow> val (q ! j) = 0 \<Longrightarrow>
     \<exists>q' r'. div_outer d (GF lc) [i0..<nq] (q, r) = Inr (q', r') \<and>
        list_all gfc q' \<and> list_all gfc r' \<and> length q' = nq \<and> length r' = n \<and>
        take i0 (map val q') = take i0 (map val q) \<and>
        drop i0 (map val q') = fst (vdiv (nq - i0) (drop 1 (map val d)) (ginv lc) (drop i0 (map val r))) \<and>
        drop nq (map val r') = snd (vdiv (nq - i0) (drop 1 (map val d)) (ginv lc) (drop i0 (map val r)))"
proof (induction "nq - i0" arbitrary: i0 q r)
  case 0
  then show ?case by simp
next
  case (Suc k)
  let ?dt = "drop 1 (map val d)" and ?c = "ginv lc"
  from Suc(2) have i: "i0 < nq" by simp
  then have up: "[i0..<nq] = i0 # [Suc i0..<nq]" by (simp add: upt_conv_Cons)
  have ir: "i0 < length r" using i n d(3) Suc.prems by simp
  have iq: "i0 < length q" using i Suc.prems by simp
  let ?x = "val (r ! i0)"
  let ?qiv = "gmul ?x ?c"
  let ?W = "map (gmul ?qiv) ?dt"
  have gri: "gfc (r ! i0)" using Suc.prems ir by (simp add: list_all_length)
  from quotient_coeff_gf[OF gri lc] obtain qi where
    qi: "quotient_coeff (r ! i0) (GF lc) = Inr qi" "gfc qi" "val qi = ?qiv" by auto
  have bound: "i0 + length d \<le> n" using i n d(2) by simp
  from div_inner_gf[OF qi(2) d(1) bound, of "Suc 0" r] d(2,3) Suc.prems obtain r2 where
    r2: "div_inner qi d i0 [Suc 0..<length d] r = Inr r2" "list_all gfc r2" "length r2 = n"
      "map val r2 = xor_at (Suc i0) (map (gmul (val qi)) ?dt) (map val r)"
    by auto
  define q1 where "q1 = (if ?x \<noteq> 0 then q[i0 := qi] else q)"
  define r1 where "r1 = (if ?x \<noteq> 0 \<and> val qi \<noteq> 0 then r2 else r)"
  have step: "div_outer d (GF lc) [i0..<nq] (q, r) = div_outer d (GF lc) [Suc i0..<nq] (q1, r1)"
    using ir iq
    by (simp add: up py_index_nat py_setitem_nat qi(1) r2(1) ebind_def q1_def r1_def
        del: upt_Suc of_nat_add)
  have gq1: "list_all gfc q1" "length q1 = nq"
    using Suc.prems qi(2) by (simp_all add: q1_def list_all_update)
  have z1: "\<forall>j<nq. Suc i0 \<le> j \<longrightarrow> val (q1 ! j) = 0"
    using Suc.prems(6) by (simp add: q1_def)
  have gr1: "list_all gfc r1" "length r1 = n"
    using Suc.prems r2 by (simp_all add: r1_def)
  have vr1: "map val r1 = xor_at (Suc i0) ?W (map val r)"
  proof (cases "?x \<noteq> 0 \<and> val qi \<noteq> 0")
    case True
    then show ?thesis using r2(4) qi(3) by (simp add: r1_def)
  next
    case False
    then have "?qiv = 0" using qi(3) by auto
    moreover have "r1 = r" using False by (auto simp: r1_def)
    ultimately show ?thesis by (simp add: xor_at_zeros)
  qed
  have k: "k = nq - Suc i0" using Suc(2) by simp
  have i1: "Suc i0 \<le> nq" using i by simp
  from Suc(1)[OF k i1 gq1 gr1 z1] obtain q' r' where
    res: "div_outer d (GF lc) [Suc i0..<nq] (q1, r1) = Inr (q', r')"
      "list_all gfc q'" "list_all gfc r'" "length q' = nq" "length r' = n"
      "take (Suc i0) (map val q') = take (Suc i0) (map val q1)"
      "drop (Suc i0) (map val q') = fst (vdiv (nq - Suc i0) ?dt ?c (drop (Suc i0) (map val r1)))"
      "drop nq (map val r') = snd (vdiv (nq - Suc i0) ?dt ?c (drop (Suc i0) (map val r1)))"
    by blast
  have dr: "drop i0 (map val r) = ?x # drop (Suc i0) (map val r)"
    using ir by (simp add: Cons_nth_drop_Suc[symmetric])
  have d1: "drop (Suc i0) (map val r1) = xor_prefix (drop (Suc i0) (map val r)) ?W"
    using ir by (simp add: vr1 drop_xor_at)
  have nqk: "nq - i0 = Suc (nq - Suc i0)" using i by simp
  have vd: "vdiv (nq - i0) ?dt ?c (drop i0 (map val r))
      = (?qiv # fst (vdiv (nq - Suc i0) ?dt ?c (drop (Suc i0) (map val r1))),
         snd (vdiv (nq - Suc i0) ?dt ?c (drop (Suc i0) (map val r1))))"
    by (simp only: nqk dr vdiv.simps d1 Let_def split_beta)
  have q1i: "map val q1 ! i0 = ?qiv"
  proof (cases "?x = 0")
    case True
    then show ?thesis using Suc.prems(6) i iq by (simp add: q1_def)
  next
    case False
    then show ?thesis using iq qi(3) by (simp add: q1_def)
  qed
  have tq1: "take i0 (map val q1) = take i0 (map val q)"
    by (simp add: q1_def map_update)
  have lq': "i0 < length (map val q')" using res(4) i by simp
  have "take i0 (map val q') = take i0 (take (Suc i0) (map val q'))" by (simp add: min_def)
  also have "\<dots> = take i0 (map val q)" by (simp only: res(6)) (simp add: min_def tq1)
  finally have A: "take i0 (map val q') = take i0 (map val q)" .
  have "map val q' ! i0 = take (Suc i0) (map val q') ! i0" by simp
  also have "\<dots> = ?qiv" by (simp only: res(6)) (simp add: q1i)
  finally have "map val q' ! i0 = ?qiv" .
  then have B: "drop i0 (map val q') = ?qiv # drop (Suc i0) (map val q')"
    using Cons_nth_drop_Suc[OF lq'] by simp
  show ?case
    using res(2-5) A B res(7,8) by (simp only: step res(1) vd fst_conv snd_conv) blast
qed

lemma mul_inner_gf:
  assumes "gfc c1"
  shows "list_all gfc ys \<Longrightarrow> list_all gfc terms \<Longrightarrow> length terms = n \<Longrightarrow> i1 + i2 + length ys \<le> n \<Longrightarrow>
     \<exists>t'. mul_inner c1 i1 (enumerate i2 ys) terms = Inr t' \<and> list_all gfc t' \<and> length t' = n \<and>
          map val t' = xor_at (i1 + i2) (map (gmul (val c1)) (map val ys)) (map val terms)"
proof (induction ys arbitrary: i2 terms)
  case Nil
  then show ?case by simp
next
  case (Cons y ys)
  have pos: "i1 + i2 < length terms" using Cons.prems by simp
  have gt: "gfc (terms ! (i1 + i2))" using Cons.prems pos by (simp add: list_all_length)
  have gy: "gfc y" using Cons.prems by simp
  from py_mul_gf[OF assms gy] obtain prod where
    p: "py_mul c1 y = Inr prod" "gfc prod" "val prod = gmul (val c1) (val y)" by auto
  from py_add_gf[OF gt p(2)] obtain s where
    s: "py_add (terms ! (i1 + i2)) prod = Inr s" "gfc s"
       "val s = val (terms ! (i1 + i2)) XOR val prod" by auto
  let ?t1 = "terms[i1 + i2 := s]"
  have step: "mul_inner c1 i1 (enumerate i2 (y # ys)) terms
      = mul_inner c1 i1 (enumerate (Suc i2) ys) ?t1"
    using pos by (simp add: py_index_nat py_setitem_nat p s ebind_def del: of_nat_add)
  have g1: "list_all gfc ys" "list_all gfc ?t1" "length ?t1 = n" "i1 + Suc i2 + length ys \<le> n"
    using Cons.prems s(2) by (simp_all add: list_all_update)
  from Cons.IH[OF g1] obtain t' where
    t': "mul_inner c1 i1 (enumerate (Suc i2) ys) ?t1 = Inr t'" "list_all gfc t'" "length t' = n"
      "map val t' = xor_at (i1 + Suc i2) (map (gmul (val c1)) (map val ys)) (map val ?t1)"
    by blast
  have v1: "map val ?t1 = (map val terms)[i1 + i2 := map val terms ! (i1 + i2) XOR gmul (val c1) (val y)]"
    using pos s(3) p(3) by (simp add: map_update)
  have "xor_at (i1 + i2) (map (gmul (val c1)) (map val (y # ys))) (map val terms)
      = xor_at (i1 + Suc i2) (map (gmul (val c1)) (map val ys)) (map val ?t1)"
    using pos by (simp only: v1 list.map xor_at_step length_map add_Suc_right)
  with t' step show ?case by simp
qed

lemma mul_outer_gf:
  assumes "list_all gfc ds"
  shows "list_all gfc xs \<Longrightarrow> list_all gfc terms \<Longrightarrow> length terms = n \<Longrightarrow>
     i1 + length xs + length ds \<le> n \<Longrightarrow>
     \<exists>t'. mul_outer (enumerate i1 xs) (enumerate 0 ds) terms = Inr t' \<and> list_all gfc t' \<and>
          length t' = n \<and> map val t' = lconv i1 (map val xs) (map val ds) (map val terms)"
proof (induction xs arbitrary: i1 terms)
  case Nil
  then show ?case by simp
next
  case (Cons x xs)
  have gx: "gfc x" using Cons.prems by simp
  have b: "i1 + 0 + length ds \<le> n" using Cons.prems by simp
  from mul_inner_gf[OF gx assms Cons.prems(2,3) b] obtain t1 where
    t1: "mul_inner x i1 (enumerate 0 ds) terms = Inr t1" "list_all gfc t1" "length t1 = n"
      "map val t1 = xor_at i1 (map (gmul (val x)) (map val ds)) (map val terms)"
    by auto
  define t2 where "t2 = (if val x = 0 then terms else t1)"
  have step: "mul_outer (enumerate i1 (x # xs)) (enumerate 0 ds) terms
      = mul_outer (enumerate (Suc i1) xs) (enumerate 0 ds) t2"
    by (simp add: t1(1) ebind_def t2_def)
  have g2: "list_all gfc xs" "list_all gfc t2" "length t2 = n" "Suc i1 + length xs + length ds \<le> n"
    using Cons.prems t1 by (simp_all add: t2_def)
  have v2: "map val t2 = xor_at i1 (map (gmul (val x)) (map val ds)) (map val terms)"
  proof (cases "val x = 0")
    case True
    have "xor_at i1 (map (gmul 0) (map val ds)) (map val terms) = map val terms"
      by (rule xor_at_zeros)
    moreover have "t2 = terms" using True by (simp add: t2_def)
    ultimately show ?thesis using True by simp
  next
    case False
    then show ?thesis by (simp add: t2_def t1(4))
  qed
  from Cons.IH[OF g2] obtain t' where
    "mul_outer (enumerate (Suc i1) xs) (enumerate 0 ds) t2 = Inr t'" "list_all gfc t'" "length t' = n"
    "map val t' = lconv (Suc i1) (map val xs) (map val ds) (map val t2)"
    by blast
  then have "\<exists>t'. mul_outer (enumerate (Suc i1) xs) (enumerate 0 ds) t2 = Inr t' \<and> list_all gfc t' \<and>
      length t' = n \<and> map val t' = lconv (Suc i1) (map val xs) (map val ds) (map val t2)"
    by blast
  then show ?case by (simp only: step list.map lconv.simps v2[symmetric])
qed

lemma xor_prefix_append:
  "length ws \<le> length us \<Longrightarrow> xor_prefix (us @ ys) ws = xor_prefix us ws @ ys"
  by (induction us ws rule: xor_prefix.induct) simp_all

lemma xor_at_append:
  "t + length ws \<le> length xs \<Longrightarrow> xor_at t ws (xs @ ys) = xor_at t ws xs @ ys"
  by (simp add: xor_at_def xor_prefix_append)

lemma xor_prefix_map2:
  "length xs = length ys \<Longrightarrow> xor_prefix xs ys = map2 (XOR) xs ys"
  by (induction xs ys rule: list_induct2) simp_all

lemma xor_at_rev:
  assumes "length B = t + length W"
  shows "xor_at t (rev W) (rev B) = rev (xor_prefix B W)"
proof -
  define B1 where "B1 = take (length W) B"
  define B2 where "B2 = drop (length W) B"
  have B: "B = B1 @ B2" and l1: "length B1 = length W" and l2: "length B2 = t"
    using assms by (simp_all add: B1_def B2_def)
  have "xor_prefix B W = map2 (XOR) B1 W @ B2"
    using l1 by (simp add: B xor_prefix_append xor_prefix_map2)
  moreover have "xor_at t (rev W) (rev B) = rev B2 @ map2 (XOR) (rev B1) (rev W)"
    using l1 l2 by (simp add: B xor_at_def xor_prefix_map2)
  moreover have "map2 (XOR) (rev B1) (rev W) = rev (map2 (XOR) B1 W)"
    using l1 by (simp add: zip_rev rev_map)
  ultimately show ?thesis by simp
qed

lemma xor_at_rev_append:
  assumes "length B = t + length W"
  shows "xor_at t (rev W) (rev (A @ B)) = rev (A @ xor_prefix B W)"
  using assms by (simp add: xor_at_append xor_at_rev)

lemma lconv_vmul:
  "lconv (length suf) (rev pre) (rev (lc # dt))
      (rev (replicate (Suc (length pre)) 0 @ vmul suf lc dt))
   = rev (0 # vmul (pre @ suf) lc dt)"
proof (induction pre arbitrary: suf rule: rev_induct)
  case Nil
  then show ?case by simp
next
  case (snoc x ps)
  let ?A = "replicate (Suc (length ps)) (0::int)"
  let ?B = "0 # vmul suf lc dt"
  let ?W = "map (gmul x) (lc # dt)"
  have lB: "length ?B = length suf + length ?W" by simp
  have "replicate (Suc (length (ps @ [x]))) 0 @ vmul suf lc dt = ?A @ ?B"
    by (simp add: replicate_append_same)
  then have "xor_at (length suf) (map (gmul x) (rev (lc # dt)))
         (rev (replicate (Suc (length (ps @ [x]))) 0 @ vmul suf lc dt))
       = rev (?A @ xor_prefix ?B ?W)"
    using xor_at_rev_append[OF lB, of ?A] by (simp only: rev_map)
  also have "xor_prefix ?B ?W = vmul (x # suf) lc dt" by simp
  finally show ?case
    using snoc.IH[of "x # suf"] by simp
qed

lemma lconv_vmul_all:
  "lconv 0 (rev q) (rev (lc # dt)) (replicate (length q + length (lc # dt)) 0)
   = rev (0 # vmul q lc dt)"
proof -
  have "rev (replicate (Suc (length q)) 0 @ vmul [] lc dt)
      = replicate (length q + length (lc # dt)) (0::int)"
    by (simp add: replicate_add[symmetric] del: replicate_Suc)
  with lconv_vmul[of "[]" q lc dt] show ?thesis by simp
qed

lemma Polynomial_init_dense: "Polynomial_init cs [] = Inr (Polynomial (cnorm cs))"
  by (simp add: Polynomial_init_def cnorm_def Let_def)

lemma map_val_cnorm: "map val (cnorm cs) = vnorm (map val cs)"
  by (simp add: cnorm_def vnorm_def Let_def dropWhile_map comp_def)

lemma gfc_cnorm: "list_all gfc cs \<Longrightarrow> list_all gfc (cnorm cs)"
proof -
  assume "list_all gfc cs"
  then have "list_all gfc (dropWhile (\<lambda>x. val x = 0) cs)"
    by (auto simp: list_all_iff dest: set_dropWhileD)
  then show ?thesis by (simp add: cnorm_def Let_def gfc_def)
qed

lemma cnorm_nonempty [simp]: "cnorm cs \<noteq> []"
  by (simp add: cnorm_def Let_def)

lemma vnorm_nonempty [simp]: "vnorm xs \<noteq> []"
  by (simp add: vnorm_def Let_def)

lemma strip_zeros_Nil: "strip_zeros xs = [] \<longleftrightarrow> xs = []"
proof (induction xs rule: strip_zeros.induct)
  case (1 x y ys)
  then show ?case by (cases "val x = 0") simp_all
qed simp_all

lemma dropWhile_strip_zeros:
  "dropWhile (\<lambda>x. val x = 0) (strip_zeros xs) = dropWhile (\<lambda>x. val x = 0) xs"
proof (induction xs rule: strip_zeros.induct)
  case (1 x y ys)
  then show ?case by (cases "val x = 0") simp_all
qed simp_all

lemma cnorm_strip:
  "cnorm (if strip_zeros xs = [] then [PyInt 0] else strip_zeros xs) = cnorm xs"
proof (cases "xs = []")
  case True
  then show ?thesis by (simp add: cnorm_def)
next
  case False
  then have "strip_zeros xs \<noteq> []" by (simp add: strip_zeros_Nil)
  then show ?thesis by (simp add: cnorm_def dropWhile_strip_zeros)
qed

lemma strip_zeros_id: "val (hd q) \<noteq> 0 \<or> length q = 1 \<Longrightarrow> strip_zeros q = q"
  by (induction q rule: strip_zeros.induct) auto

lemma vnorm_0_Cons [simp]: "vnorm (0 # xs) = vnorm xs"
  by (simp add: vnorm_def)

lemma vnorm_pad [simp]: "vnorm (pad k xs) = vnorm xs"
  by (induction k) (simp_all add: pad_def)

lemma vnorm_id: "xs \<noteq> [] \<Longrightarrow> (hd xs = 0 \<longrightarrow> length xs = 1) \<Longrightarrow> vnorm xs = xs"
  by (cases xs) (auto simp: vnorm_def)

lemma pad_Cons_0: "pad k (0 # xs) = pad (Suc k) xs"
  by (simp add: pad_def replicate_app_Cons_same)

lemma pad_vnorm:
  "length xs \<le> n \<Longrightarrow> 1 \<le> n \<Longrightarrow>
     length (vnorm xs) \<le> n \<and> pad (n - length (vnorm xs)) (vnorm xs) = pad (n - length xs) xs"
proof (induction xs)
  case Nil
  then obtain k where n: "n = Suc k" by (cases n) auto
  have "vnorm [] = [0]" by (simp add: vnorm_def)
  then show ?case using pad_Cons_0[of k "[]"] by (simp add: n)
next
  case (Cons x xs)
  show ?case
  proof (cases "x = 0")
    case True
    from Cons have IH: "length (vnorm xs) \<le> n"
      "pad (n - length (vnorm xs)) (vnorm xs) = pad (n - length xs) xs"
      by simp_all
    have "n - length xs = Suc (n - length (x # xs))" using Cons.prems by simp
    then have e: "pad (n - length xs) xs = pad (n - length (x # xs)) (x # xs)"
      using True by (simp only: pad_Cons_0)
    have v: "vnorm (x # xs) = vnorm xs" using True by simp
    show ?thesis by (simp only: v IH e[symmetric] simp_thms)
  next
    case False
    then have "vnorm (x # xs) = x # xs" by (simp add: vnorm_def)
    then show ?thesis using Cons.prems by simp
  qed
qed

lemma length_vnorm: "length (vnorm xs) \<le> max 1 (length xs)"
proof -
  have "length (dropWhile (\<lambda>x. x = 0) xs) \<le> length xs" by (rule length_dropWhile_le)
  then show ?thesis by (auto simp: vnorm_def Let_def)
qed

lemma divisor_shape:
  assumes "gf_poly d" "normalized d" "\<not> is_zero d"
  shows "\<exists>lc dtl. coefficients d = GF lc # dtl \<and> 1 \<le> lc \<and> lc \<le> 255"
proof -
  from assms(1) obtain c cs where d: "coefficients d = c # cs"
    by (cases "coefficients d") (auto simp: gf_poly_def)
  have nz: "val c \<noteq> 0"
    using assms(2,3) d by (auto simp: normalized_def is_zero_def)
  have "gfc c" using assms(1) d by (simp add: gf_poly_def)
  with nz obtain a where "c = GF a" "in_field a" by (cases c) (auto simp: gfc_def)
  with nz d show ?thesis by (auto simp: in_field_def)
qed

lemma ginv_nonzero: "1 \<le> lc \<Longrightarrow> lc \<le> 255 \<Longrightarrow> in_field (ginv lc) \<and> ginv lc \<noteq> 0"
  using ginv_range[of lc] by (simp add: in_field_def)

lemma poly_divmod_gf:
  assumes P: "list_all gfc pc" "pc \<noteq> []" "val (hd pc) \<noteq> 0 \<or> length pc = 1"
    and D: "list_all gfc dtl" "1 \<le> lc" "lc \<le> 255" "length dtl < length pc"
  defines "nq \<equiv> length pc - length dtl"
  defines "V \<equiv> vdiv nq (map val dtl) (ginv lc) (map val pc)"
  shows "\<exists>Q R. poly_divmod (Polynomial pc) (Polynomial (GF lc # dtl)) = Inr (Polynomial Q, Polynomial R)
       \<and> list_all gfc Q \<and> list_all gfc R \<and> map val Q = fst V \<and> map val R = vnorm (snd V)"
proof -
  let ?d = "GF lc # dtl"
  have gd: "list_all gfc ?d" using D by (simp add: gfc_def in_field_def)
  have nq1: "1 \<le> nq" using D(4) by (simp add: nq_def)
  have n: "length pc + 1 = nq + length ?d" using D(4) by (simp add: nq_def)
  have z: "\<forall>j<nq. 0 \<le> j \<longrightarrow> val (replicate nq (PyInt 0) ! j) = 0" by simp
  have g0: "list_all gfc (replicate nq (PyInt 0))" by (simp add: list_all_iff gfc_def)
  from div_outer_gf[OF gd refl _ D(2,3) n, of 0 "replicate nq (PyInt 0)" pc] g0 P(1) z
  obtain q r where
    res: "div_outer ?d (GF lc) [0..<nq] (replicate nq (PyInt 0), pc) = Inr (q, r)"
      "list_all gfc q" "list_all gfc r" "length q = nq" "length r = length pc"
      "map val q = fst V" "drop nq (map val r) = snd V"
    by (auto simp: V_def)
  have q_ne: "q \<noteq> []" using res(4) nq1 by auto
  have hq: "val (hd q) \<noteq> 0 \<or> length q = 1"
  proof (cases "length pc = 1")
    case True
    then show ?thesis using res(4) D(4) by (simp add: nq_def)
  next
    case False
    with P(3) have nz: "val (hd pc) \<noteq> 0" by simp
    from P(2) obtain x xs where pc: "pc = x # xs" by (cases pc) auto
    obtain k where k: "nq = Suc k" using nq1 by (cases nq) auto
    have fx: "in_field (val x)" using P(1) pc by (simp add: gfc_val)
    have "hd (fst V) = gmul (val x) (ginv lc)"
      by (simp add: V_def k pc Let_def split_beta)
    moreover have "gmul (val x) (ginv lc) \<noteq> 0"
      using gmul_nonzero[OF fx] ginv_nonzero[OF D(2,3)] nz pc by simp
    moreover have "hd (map val q) = val (hd q)" using q_ne by (simp add: hd_map)
    ultimately show ?thesis using res(6) by simp
  qed
  have sq: "strip_zeros q = q" by (rule strip_zeros_id[OF hq])
  have vq: "vnorm (map val q) = map val q"
    using q_ne hq by (intro vnorm_id) (auto simp: hd_map)
  let ?R = "cnorm (drop nq r)"
  have e: "nat (int (length pc) - int (length dtl)) = nq"
    using D(4) by (simp add: nq_def)
  have "poly_divmod (Polynomial pc) (Polynomial ?d) = Inr (Polynomial (cnorm q), Polynomial ?R)"
    using D(2,4)
    by (simp add: poly_divmod_def degree_def py_index_def Let_def e res(1,4) sq
        ebind_def Polynomial_init_dense cnorm_strip)
  moreover have "list_all gfc (cnorm q)" "map val (cnorm q) = fst V"
    using res(2,6) vq by (simp_all add: gfc_cnorm map_val_cnorm)
  moreover have "list_all gfc ?R"
    using res(3) by (intro gfc_cnorm) (auto simp: list_all_iff dest: in_set_dropD)
  moreover have "map val ?R = vnorm (snd V)"
    using res(7) by (simp add: map_val_cnorm drop_map[symmetric] del: drop_map)
  ultimately show ?thesis by blast
qed

lemma poly_mul_gf:
  assumes "list_all gfc A" "list_all gfc (dC # dtl)"
  shows "\<exists>T. poly_mul (Polynomial A) (Polynomial (dC # dtl)) = Inr (Polynomial T) \<and>
     list_all gfc T \<and> map val T = vnorm (vmul (map val A) (val dC) (map val dtl))"
proof -
  let ?D = "dC # dtl"
  let ?n = "length A + length ?D"
  let ?t0 = "replicate ?n (PyInt 0)"
  have g: "list_all gfc (rev ?D)" "list_all gfc (rev A)" "list_all gfc ?t0"
    using assms by (simp_all add: list_all_iff gfc_def)
  have b: "0 + length (rev A) + length (rev ?D) \<le> ?n" by simp
  from mul_outer_gf[OF g(1) g(2) g(3) _ b] obtain t' where
    t': "mul_outer (enumerate 0 (rev A)) (enumerate 0 (rev ?D)) ?t0 = Inr t'" "list_all gfc t'"
      "map val t' = lconv 0 (map val (rev A)) (map val (rev ?D)) (map val ?t0)"
    by auto
  have "map val t' = lconv 0 (rev (map val A)) (rev (val dC # map val dtl))
      (replicate (length (map val A) + length (val dC # map val dtl)) 0)"
    by (simp add: t'(3) rev_map)
  then have "map val t' = rev (0 # vmul (map val A) (val dC) (map val dtl))"
    by (simp only: lconv_vmul_all)
  then have v: "map val (rev t') = 0 # vmul (map val A) (val dC) (map val dtl)"
    by (simp add: rev_map[symmetric])
  have "poly_mul (Polynomial A) (Polynomial ?D) = Inr (Polynomial (cnorm (rev t')))"
    using t'(1) by (simp add: poly_mul_def len_def Let_def ebind_def Polynomial_init_dense)
  moreover have "list_all gfc (cnorm (rev t'))" using t'(2) by (intro gfc_cnorm) simp
  moreover have "map val (cnorm (rev t')) = vnorm (vmul (map val A) (val dC) (map val dtl))"
    by (simp add: map_val_cnorm v)
  ultimately show ?thesis by blast
qed

lemma collect_add_gf:
  "length xs = length ys \<Longrightarrow> list_all gfc xs \<Longrightarrow> list_all gfc ys \<Longrightarrow>
     \<exists>cs. collect (\<lambda>(x, y). py_add x y) (zip xs ys) = Inr cs \<and> list_all gfc cs \<and>
          map val cs = map2 (XOR) (map val xs) (map val ys)"
proof (induction xs ys rule: list_induct2)
  case Nil
  then show ?case by simp
next
  case (Cons x xs y ys)
  then obtain cs where cs: "collect (\<lambda>(x, y). py_add x y) (zip xs ys) = Inr cs" "list_all gfc cs"
    "map val cs = map2 (XOR) (map val xs) (map val ys)" by auto
  from Cons.prems py_add_gf[of x y] obtain z where
    z: "py_add x y = Inr z" "gfc z" "val z = val x XOR val y" by auto
  show ?case by (simp add: cs z ebind_def)
qed

lemma gfc_zeros: "list_all gfc (replicate k (PyInt 0))"
  by (induction k) (simp_all add: gfc_def)

lemma map_val_pad: "map val (replicate k (PyInt 0) @ cs) = pad k (map val cs)"
  by (simp add: pad_def)

lemma poly_add_gf:
  assumes "list_all gfc A" "list_all gfc B"
  shows "\<exists>S. poly_add (Polynomial A) (Polynomial B) = Inr (Polynomial S) \<and> list_all gfc S \<and>
     map val S = vnorm (map2 (XOR) (pad (length B - length A) (map val A))
                                  (pad (length A - length B) (map val B)))"
proof -
  let ?t1 = "replicate (length B - length A) (PyInt 0) @ A"
  let ?t2 = "replicate (length A - length B) (PyInt 0) @ B"
  have l: "length ?t1 = length ?t2" by simp
  have g: "list_all gfc ?t1" "list_all gfc ?t2"
    using assms by (simp_all add: gfc_zeros)
  from collect_add_gf[OF l g] obtain cs where
    cs: "collect (\<lambda>(x, y). py_add x y) (zip ?t1 ?t2) = Inr cs" "list_all gfc cs"
      "map val cs = map2 (XOR) (map val ?t1) (map val ?t2)" by blast
  have t: "(if int (length A) - int (length B) > 0 then A
            else replicate (nat (- (int (length A) - int (length B)))) (PyInt 0) @ A) = ?t1"
     "(if int (length A) - int (length B) > 0
            then replicate (nat (int (length A) - int (length B))) (PyInt 0) @ B else B) = ?t2"
    by (auto simp: nat_diff_distrib')
  have "poly_add (Polynomial A) (Polynomial B) = Inr (Polynomial (cnorm cs))"
    unfolding poly_add_def len_def Let_def Polynomial.sel t
    by (simp add: cs(1) ebind_def Polynomial_init_dense)
  moreover have "list_all gfc (cnorm cs)" using cs(2) by (rule gfc_cnorm)
  moreover have "map val (cnorm cs) = vnorm (map2 (XOR) (pad (length B - length A) (map val A))
                                  (pad (length A - length B) (map val B)))"
    by (simp only: map_val_cnorm cs(3) map_val_pad)
  ultimately show ?thesis by blast
qed

lemma pad_pad: "pad j (pad k xs) = pad (j + k) xs"
  by (simp add: pad_def replicate_add)

lemma pad_map2: "pad k (map2 (XOR) xs ys) = map2 (XOR) (pad k xs) (pad k ys)"
  by (induction k) (simp_all add: pad_def)

lemma vnorm_padded_sum:
  assumes "length T \<le> n" "length R \<le> n"
  shows "vnorm (map2 (XOR) (pad (length R - length T) T) (pad (length T - length R) R))
       = vnorm (map2 (XOR) (pad (n - length T) T) (pad (n - length R) R))"
proof -
  let ?M = "max (length T) (length R)"
  let ?s = "map2 (XOR) (pad (length R - length T) T) (pad (length T - length R) R)"
  have "pad (n - ?M) ?s = map2 (XOR) (pad (n - ?M + (length R - length T)) T)
                                    (pad (n - ?M + (length T - length R)) R)"
    by (simp only: pad_map2 pad_pad)
  moreover have "n - ?M + (length R - length T) = n - length T"
    "n - ?M + (length T - length R) = n - length R"
    using assms by (simp_all add: max_def)
  ultimately have "pad (n - ?M) ?s = map2 (XOR) (pad (n - length T) T) (pad (n - length R) R)"
    by simp
  then have "vnorm (pad (n - ?M) ?s) = vnorm (map2 (XOR) (pad (n - length T) T) (pad (n - length R) R))"
    by simp
  then show ?thesis by (simp only: vnorm_pad)
qed

lemma vnorm_zeros: "vnorm (replicate k 0) = [0]"
  by (induction k) (simp_all add: vnorm_def)

lemma map2_xor_zeros: "map2 (XOR) (replicate (length xs) 0) xs = xs"
  by (induction xs) simp_all

lemma normalized_vnorm:
  assumes "normalized p"
  shows "vnorm (map val (coefficients p)) = map val (coefficients p)"
proof -
  from assms obtain c cs where "coefficients p = c # cs" "val c = 0 \<longrightarrow> cs = []"
    by (cases "coefficients p") (auto simp: normalized_def)
  then show ?thesis by (intro vnorm_id) auto
qed

lemma identity_from_parts:
  assumes dm: "poly_divmod p d = Inr (Polynomial Q, Polynomial R)"
    and d: "coefficients d = dC # dtl" "list_all gfc (dC # dtl)"
    and g: "list_all gfc Q" "list_all gfc R"
    and T: "Tv = vnorm (vmul (map val Q) (val dC) (map val dtl))"
    and bounds: "length Tv \<le> n" "length R \<le> n"
    and sum: "map2 (XOR) (pad (n - length Tv) Tv) (pad (n - length R) (map val R))
                = map val (coefficients p)"
    and p: "normalized p"
  shows "divmod_identity p d = Inr True"
proof -
  have dd: "d = Polynomial (dC # dtl)" using d(1) by (cases d) simp
  from poly_mul_gf[OF g(1) d(2)] obtain Tc where
    Tc: "poly_mul (Polynomial Q) d = Inr (Polynomial Tc)" "list_all gfc Tc" "map val Tc = Tv"
    by (auto simp: dd T)
  from poly_add_gf[OF Tc(2) g(2)] obtain S where
    S: "poly_add (Polynomial Tc) (Polynomial R) = Inr (Polynomial S)"
       "map val S = vnorm (map2 (XOR) (pad (length R - length Tc) (map val Tc))
                                  (pad (length Tc - length R) (map val R)))"
    by blast
  have lt: "length Tc = length Tv" using Tc(3) by (metis length_map)
  have "map val S = vnorm (map2 (XOR) (pad (n - length Tv) Tv) (pad (n - length R) (map val R)))"
    using vnorm_padded_sum[of Tv n "map val R"] bounds by (simp add: S(2) Tc(3) lt)
  then have "map val S = map val (coefficients p)"
    by (simp only: sum normalized_vnorm[OF p])
  then show ?thesis
    by (simp add: divmod_identity_def poly_floordiv_def poly_mod_def dm ebind_def Tc(1) S(1)
        poly_eq_def)
qed

lemma poly_divmod_short:
  assumes "coefficients d = GF lc # dtl" "1 \<le> lc" "length (coefficients p) \<le> length dtl"
  shows "poly_divmod p d = Inr (Polynomial [PyInt 0], p)"
  using assms by (simp add: poly_divmod_def degree_def ebind_def Polynomial_init_dense cnorm_def)

section \<open>The claims about the field\<close>

text \<open>
  Claim C5.  For every pair \<open>(a, b)\<close> of field elements, that is of integers in
  \<open>[0, 255]\<close>, the reference multiplication \<^verbatim>\<open>GF256int(a).multiply(GF256int(b))\<close>, the
  shift-and-XOR loop with the reduction constant \<^verbatim>\<open>0x11b\<close>, returns, and what it returns
  is the result of the table-driven product \<^verbatim>\<open>GF256int(a) * GF256int(b)\<close>.
\<close>

theorem multiply_agrees_with_mul:
  "0 \<le> a \<Longrightarrow> a \<le> 255 \<Longrightarrow> 0 \<le> b \<Longrightarrow> b \<le> 255 \<Longrightarrow> multiply a b = Some (gf_mul a b)"
proof -
  assume r: "0 \<le> a" "a \<le> 255" "0 \<le> b" "b \<le> 255"
  then have a: "in_field a" and b: "in_field b" by (simp_all add: in_field_def)
  have "multiply_loop a b 0 = Some (pmul a b)"
    using r by (simp add: multiply_loop_pmul)
  then show ?thesis
    using gmul_range[of a b]
    by (simp add: multiply_def gf_mul_eq[OF a b] gmul_pmul[OF a b, symmetric] GF256int_ok)
qed

theorem multiply_agrees_with_mul_witness:
  "(0::int) \<le> 87 \<and> (87::int) \<le> 255 \<and> (0::int) \<le> 131 \<and> (131::int) \<le> 255
   \<and> multiply 87 131 = Some (gf_mul 87 131)"
  using multiply_agrees_with_mul[of 87 131] by simp

text \<open>
  Claim C6.  For every nonzero field element \<open>a\<close>, the value 255 included,
  \<^verbatim>\<open>a.inverse()\<close> returns and \<^verbatim>\<open>a * a.inverse()\<close> is the field element 1.
\<close>

theorem mul_inverse_is_one:
  "1 \<le> a \<Longrightarrow> a \<le> 255 \<Longrightarrow> ebind (inverse a) (\<lambda>i. gf_mul a i) = Inr 1"
proof -
  assume a: "1 \<le> a" "a \<le> 255"
  note gi = ginv_range[OF a] and la = log_facts[OF a]
  have f: "in_field a" "in_field (ginv a)" using a gi by (simp_all add: in_field_def)
  have "(lg a + lg (ginv a)) mod 255 = 0"
    using la by (simp add: lg_ginv[OF a] mod_simps)
  then have "gmul a (ginv a) = 1"
    using a gi by (simp add: gmul_def ex_0)
  then show ?thesis
    by (simp add: inverse_eq[OF a] ebind_def gf_mul_eq[OF f])
qed

theorem mul_inverse_is_one_witness:
  "(1::int) \<le> 255 \<and> (255::int) \<le> 255 \<and> ebind (inverse 255) (\<lambda>i. gf_mul 255 i) = Inr 1"
  using mul_inverse_is_one[of 255] by simp

text \<open>
  Claim C8.  Raising a field element \<open>a\<close> to a power that is itself a \<^verbatim>\<open>GF256int\<close> raises
  \<^verbatim>\<open>TypeError\<close>; for a nonzero \<open>a\<close> and a plain integer \<open>n\<close>, \<^verbatim>\<open>a ** n\<close> returns the entry of
  the exponent table at index \<open>(log[a] * n) mod 255\<close>.
\<close>

theorem pow_spec:
  "0 \<le> a \<Longrightarrow> a \<le> 255 \<Longrightarrow>
     gf_pow a (GF b) = Inl TypeError \<and>
     (a \<noteq> 0 \<longrightarrow>
        gf_pow a (PyInt n) = Inr (exptable ! nat ((the (logtable ! nat a) * n) mod 255)))"
proof -
  assume r: "0 \<le> a" "a \<le> 255"
  have "gf_pow a (PyInt n) = Inr (ex ((lg a * n) mod 255))" if nz: "a \<noteq> 0"
  proof -
    from r nz have a: "1 \<le> a" "a \<le> 255" by simp_all
    let ?z = "(lg a * n) mod 255"
    have z: "0 \<le> ?z" "?z \<le> 255" by simp_all
    have pl: "py_index logtable a = Inr (Some (lg a))"
      using py_index_logtable[of a] a log_facts(1)[OF a] by simp
    show ?thesis
      using ex_range[OF z]
      by (simp add: gf_pow_def ebind_def pl py_index_exptable[OF z] GF256int_ok)
  qed
  then show ?thesis by (simp add: gf_pow_def lg_def ex_def)
qed

theorem pow_spec_witness:
  "(0::int) \<le> 2 \<and> (2::int) \<le> 255 \<and> gf_pow 2 (GF 3) = Inl TypeError \<and> (2::int) \<noteq> 0
   \<and> gf_pow 2 (PyInt 8) = Inr (exptable ! nat ((the (logtable ! nat 2) * 8) mod 255))"
  using pow_spec[of 2 3 8] by simp

text \<open>
  Claim C9.  For a field element \<open>a\<close> with \<open>1 \<le> a \<le> 255\<close>, \<^verbatim>\<open>a.inverse()\<close> returns a field
  element, and it returns it from the patch for 255 or from the table lookup, never from
  the brute-force search; in particular it raises nothing.  For \<open>a = 0\<close> it raises
  \<^verbatim>\<open>ZeroDivisionError\<close>.  So on field elements \<^verbatim>\<open>inverse\<close> raises exactly at 0, and neither
  \<^verbatim>\<open>ValueError\<close> is raised.
\<close>

theorem inverse_never_falls_back:
  "0 \<le> a \<Longrightarrow> a \<le> 255 \<Longrightarrow>
     (a = 0 \<longrightarrow> inverse_traced a = Inl ZeroDivisionError) \<and>
     (a \<noteq> 0 \<longrightarrow>
        (\<exists>br g. inverse_traced a = Inr (br, g) \<and> br \<noteq> FallbackBranch \<and> 0 \<le> g \<and> g \<le> 255))"
proof -
  assume r: "0 \<le> a" "a \<le> 255"
  have "\<exists>br g. inverse_traced a = Inr (br, g) \<and> br \<noteq> FallbackBranch \<and> 0 \<le> g \<and> g \<le> 255"
    if "a \<noteq> 0"
  proof -
    from r that have a: "1 \<le> a" "a \<le> 255" by simp_all
    from ginv_range[OF a] have "0 \<le> ginv a" "ginv a \<le> 255" by simp_all
    then show ?thesis by (simp add: inverse_traced_eq[OF a])
  qed
  then show ?thesis by (simp add: inverse_traced_def)
qed

theorem inverse_never_falls_back_witness:
  "inverse_traced 0 = Inl ZeroDivisionError \<and>
   (\<exists>br g. inverse_traced 255 = Inr (br, g) \<and> br \<noteq> FallbackBranch \<and> 0 \<le> g \<and> g \<le> 255) \<and>
   (\<exists>br g. inverse_traced 3 = Inr (br, g) \<and> br \<noteq> FallbackBranch \<and> 0 \<le> g \<and> g \<le> 255)"
  using inverse_never_falls_back[of 0] inverse_never_falls_back[of 255]
    inverse_never_falls_back[of 3]
  by simp

text \<open>
  Claim C10.  For every plain integer \<open>n\<close>, positive ones included, \<^verbatim>\<open>GF256int(0) ** n\<close>
  raises \<^verbatim>\<open>TypeError\<close>: the logarithm table holds \<^verbatim>\<open>None\<close> at 0.
\<close>

theorem pow_zero_raises: "gf_pow 0 (PyInt n) = Inl TypeError"
proof -
  have "logtable ! 0 = None" by (simp add: logtable_def)
  then have "py_index logtable 0 = Inr None"
    by (simp add: py_index_def len_tables)
  then show ?thesis by (simp add: gf_pow_def ebind_def)
qed

text \<open>
  Claim C4.  The claim is that the operator \<^verbatim>\<open>a / b\<close> returns \<^verbatim>\<open>a * b.inverse()\<close>.  The
  method \<^verbatim>\<open>__div__\<close> computes that product, but Python 3 does not call it for \<^verbatim>\<open>/\<close>: the
  class defines no \<^verbatim>\<open>__truediv__\<close>, so \<^verbatim>\<open>GF256int(1) / GF256int(2)\<close> is the true division
  of \<^verbatim>\<open>int\<close> and returns the float 0.5, where \<^verbatim>\<open>__div__\<close> gives the field element 141.
\<close>

theorem truediv_operator_is_int_division:
  "truediv_operator 1 2 = Inr (FloatQuotient 1 2) \<and> gf_div 1 2 = Inr 141"
proof -
  have "map_of GF256int_methods ''__truediv__'' = None"
    by (simp add: GF256int_methods_def)
  then have "truediv_operator 1 2 = Inr (FloatQuotient 1 2)"
    by (simp add: truediv_operator_def int_truediv_def)
  moreover have "gf_div 1 2 = Inr 141"
  proof -
    have "ginv 2 = 141" by code_simp
    moreover have "gmul 1 141 = 141" by code_simp
    moreover have "in_field 1" "in_field 141" by (simp_all add: in_field_def)
    ultimately show ?thesis
      using inverse_eq[of 2] gf_mul_eq[of 1 141]
      by (simp add: gf_div_def GF256int_ok ebind_def)
  qed
  ultimately show ?thesis by simp
qed

text \<open>
  Called as a method, \<^verbatim>\<open>__div__\<close> does what the claim says of the operator: for a field
  element \<open>a\<close> and a nonzero field element \<open>b\<close> it returns the field element
  \<^verbatim>\<open>a * b.inverse()\<close>.
\<close>

lemma div_method_body:
  assumes "0 \<le> a" "a \<le> 255" "1 \<le> b" "b \<le> 255"
  shows "gf_div a b = ebind (inverse b) (\<lambda>i. gf_mul a i)"
    and "\<exists>g. gf_div a b = Inr g \<and> 0 \<le> g \<and> g \<le> 255"
proof -
  have b: "GF256int b = Inr b" using assms by (simp add: GF256int_ok)
  show "gf_div a b = ebind (inverse b) (\<lambda>i. gf_mul a i)"
    by (simp add: gf_div_def b ebind_def)
  have f: "in_field a" "in_field (ginv b)"
    using assms ginv_range[of b] by (simp_all add: in_field_def)
  show "\<exists>g. gf_div a b = Inr g \<and> 0 \<le> g \<and> g \<le> 255"
    using gmul_range[of a "ginv b"] assms
    by (simp add: gf_div_def b ebind_def inverse_eq gf_mul_eq[OF f])
qed

section \<open>The claims about polynomials\<close>

subsection \<open>Construction\<close>

text \<open>
  The dense form and the form without arguments establish the invariant, for any
  coefficients; and a dense sequence of field elements gives a polynomial over GF(256).
\<close>

lemma dense_init_normalized: "\<exists>p. Polynomial_init cs [] = Inr p \<and> normalized p"
proof -
  define c where "c = dropWhile (\<lambda>x. val x = 0) cs"
  have cn: "cnorm cs = (if c = [] then [PyInt 0] else c)"
    by (simp only: cnorm_def Let_def c_def)
  have "normalized (Polynomial (cnorm cs))"
  proof (cases "c = []")
    case True
    then show ?thesis by (simp add: cn normalized_def)
  next
    case False
    then have "val (hd c) \<noteq> 0" unfolding c_def by (rule hd_dropWhile)
    then show ?thesis using False by (cases c) (simp_all add: cn normalized_def)
  qed
  then show ?thesis by (simp add: Polynomial_init_dense)
qed

lemma dense_init_zero:
  "\<forall>x\<in>set cs. val x = 0 \<Longrightarrow> Polynomial_init cs [] = Inr (Polynomial [PyInt 0])"
  by (simp add: Polynomial_init_dense cnorm_def)

lemma dense_init_gf_poly:
  assumes "list_all in_field as"
  shows "\<exists>p. Polynomial_init (map GF as) [] = Inr p \<and> gf_poly p \<and> normalized p"
proof -
  have "list_all gfc (map GF as)" using assms by (simp add: list_all_iff gfc_def)
  then have "gf_poly (Polynomial (cnorm (map GF as)))"
    by (simp add: gf_poly_def gfc_cnorm)
  with dense_init_normalized[of "map GF as"] show ?thesis
    by (simp add: Polynomial_init_dense)
qed

text \<open>
  Claim C2.  The claim is that every constructed polynomial has no leading zero
  coefficient unless it is the single coefficient 0.  The dense form strips leading
  zeros and the form without arguments gives \<^verbatim>\<open>(0,)\<close>, as shown above; the sparse form
  stores the coefficients as given.  \<^verbatim>\<open>Polynomial(x1=0, x0=5)\<close> has the coefficients
  \<^verbatim>\<open>(0, 5)\<close>, with a leading zero, where the dense form of the same sequence gives
  \<^verbatim>\<open>(5,)\<close>.
\<close>

theorem sparse_init_keeps_leading_zero:
  "Polynomial_init [] [(''x1'', PyInt 0), (''x0'', PyInt 5)] = Inr (Polynomial [PyInt 0, PyInt 5])
   \<and> Polynomial_init [PyInt 0, PyInt 5] [] = Inr (Polynomial [PyInt 5])"
  by code_simp

lemma leading_zero_not_normalized: "\<not> normalized (Polynomial [PyInt 0, PyInt 5])"
  by (simp add: normalized_def)

text \<open>
  Claim C3.  The claim is that the sparse form sizes the coefficient sequence to the
  highest power present and puts every coefficient at its power.  The constructor takes
  the highest power from the greatest keyword name in string order, where \<^verbatim>\<open>"x9"\<close> is
  greater than \<^verbatim>\<open>"x10"\<close> and than \<^verbatim>\<open>"x100"\<close>.  So \<^verbatim>\<open>Polynomial(x9=4, x10=1)\<close> has ten
  coefficients, the coefficient of power 10 stored at index \<open>-1\<close>, the place of power 0;
  and \<^verbatim>\<open>Polynomial(x9=4, x100=1)\<close> raises \<^verbatim>\<open>IndexError\<close>.
\<close>

theorem sparse_init_string_order:
  "Polynomial_init [] [(''x9'', PyInt 4), (''x10'', PyInt 1)]
     = Inr (Polynomial [PyInt 4, PyInt 0, PyInt 0, PyInt 0, PyInt 0, PyInt 0, PyInt 0, PyInt 0,
                        PyInt 0, PyInt 1])
   \<and> Polynomial_init [] [(''x9'', PyInt 4), (''x100'', PyInt 1)] = Inl IndexError"
  by code_simp

subsection \<open>Division\<close>

text \<open>
  Claim C1, as stated, for coefficients in GF(256) or plain integers: the identity
  \<^verbatim>\<open>(p // d) * d + (p % d) == p\<close> holds for every dividend and every nonzero divisor.
  It fails over the integers, where the quotient coefficient is a floor division: for
  \<open>p = 1\<close> and \<open>d = 2\<close> the quotient and the remainder are both 0.
\<close>

theorem divmod_identity_int_counterexample:
  "divmod_identity (Polynomial [PyInt 1]) (Polynomial [PyInt 2]) = Inr False"
  by code_simp

text \<open>
  Claim C1, amended.  For every normalized dividend \<open>p\<close> and every normalized nonzero
  divisor \<open>d\<close> over GF(256), the expression \<^verbatim>\<open>(p // d) * d + (p % d) == p\<close> raises nothing
  and is true.
\<close>

theorem divmod_identity_gf:
  assumes "gf_poly p" "normalized p" "gf_poly d" "normalized d" "\<not> is_zero d"
  shows "divmod_identity p d = Inr True"
proof -
  from divisor_shape[OF assms(3,4,5)] obtain lc dtl where
    d: "coefficients d = GF lc # dtl" and lc: "1 \<le> lc" "lc \<le> 255" by blast
  have gd: "list_all gfc (GF lc # dtl)" using assms(3) d by (simp add: gf_poly_def)
  then have gdt: "list_all gfc dtl" by simp
  define pc where "pc = coefficients p"
  have pp: "p = Polynomial pc" by (cases p) (simp add: pc_def)
  have gp: "list_all gfc pc" "pc \<noteq> []" using assms(1) by (simp_all add: gf_poly_def pc_def)
  have dd: "d = Polynomial (GF lc # dtl)" using d by (cases d) simp
  let ?n = "length pc"
  have n1: "1 \<le> ?n" using gp(2) by (cases pc) simp_all
  show ?thesis
  proof (cases "length pc \<le> length dtl")
    case True
    have dm: "poly_divmod p d = Inr (Polynomial [PyInt 0], Polynomial pc)"
      using poly_divmod_short[OF d lc(1), of p] True by (simp add: pc_def pp[symmetric])
    have T: "[0] = vnorm (vmul (map val [PyInt 0]) (val (GF lc)) (map val dtl))"
      using vnorm_zeros[of "length dtl"] by (simp add: xor_prefix_zeros[of _ "map val dtl", simplified])
    have z: "pad (?n - 1) [0] = replicate ?n 0"
    proof -
      obtain k where k: "?n = Suc k" using n1 by (cases ?n) auto
      have "pad k [0] = pad (Suc k) []" by (rule pad_Cons_0)
      then show ?thesis by (simp add: k pad_def)
    qed
    have z': "pad (?n - length [0::int]) [0] = replicate (length (map val pc)) 0"
      using z by simp
    have z'': "pad (?n - length pc) (map val pc) = map val pc" by (simp add: pad_def)
    have sum: "map2 (XOR) (pad (?n - length [0::int]) [0]) (pad (?n - length pc) (map val pc))
        = map val (coefficients p)"
      by (simp only: z' z'' map2_xor_zeros) (simp add: pc_def)
    show ?thesis
      by (rule identity_from_parts[OF dm d gd _ gp(1) T _ _ sum assms(2)])
        (use n1 in \<open>simp_all add: gfc_def\<close>)
  next
    case False
    then have lt: "length dtl < length pc" by simp
    have hp: "val (hd pc) \<noteq> 0 \<or> length pc = 1"
      using assms(2) by (cases pc) (auto simp: normalized_def pc_def)
    define nq where "nq = length pc - length dtl"
    define V where "V = vdiv nq (map val dtl) (ginv lc) (map val pc)"
    from poly_divmod_gf[OF gp hp gdt lc lt] obtain Q R where
      QR: "poly_divmod (Polynomial pc) (Polynomial (GF lc # dtl)) = Inr (Polynomial Q, Polynomial R)"
        "list_all gfc Q" "list_all gfc R" "map val Q = fst V" "map val R = vnorm (snd V)"
      unfolding nq_def V_def by blast
    have dm: "poly_divmod p d = Inr (Polynomial Q, Polynomial R)"
      using QR(1) by (simp add: pp dd)
    have nq: "nq \<le> length (map val pc)" "?n = nq + length dtl"
      using lt by (simp_all add: nq_def)
    from length_vdiv[OF nq(1), of "map val dtl" "ginv lc"]
    have lV: "length (fst V) = nq" "length (snd V) = length dtl"
      using nq(2) by (simp_all add: V_def)
    let ?X = "vmul (fst V) lc (map val dtl)"
    have lX: "length ?X = ?n" using lV nq(2) by simp
    define Tv where "Tv = vnorm ?X"
    have T: "Tv = vnorm (vmul (map val Q) (val (GF lc)) (map val dtl))"
      by (simp add: Tv_def QR(4))
    from pad_vnorm[of ?X ?n] lX n1 have pT: "length Tv \<le> ?n" "pad (?n - length Tv) Tv = ?X"
      by (simp_all add: Tv_def pad_def)
    from pad_vnorm[of "snd V" ?n] lV nq(2) n1
    have pR: "length (vnorm (snd V)) \<le> ?n"
      "pad (?n - length (vnorm (snd V))) (vnorm (snd V)) = replicate nq 0 @ snd V"
      by (simp_all add: pad_def)
    have lR: "length R = length (vnorm (snd V))" using QR(5) by (metis length_map)
    have fp: "list_all in_field (map val pc)"
      using gp(1) by (auto simp: list_all_iff gfc_val)
    have cancel: "\<And>x. in_field x \<Longrightarrow> gmul (gmul x (ginv lc)) lc = x"
      by (rule gmul_ginv_cancel[OF _ lc])
    have len: "length (map val pc) = nq + length (map val dtl)" using nq(2) by simp
    have "map2 (XOR) ?X (replicate nq 0 @ snd V) = map val pc"
      unfolding V_def by (rule vdiv_vmul[OF cancel len fp])
    then have sum: "map2 (XOR) (pad (?n - length Tv) Tv) (pad (?n - length R) (map val R))
        = map val (coefficients p)"
      by (simp only: pc_def[symmetric] pT(2) lR QR(5) pR(2))
    show ?thesis
      by (rule identity_from_parts[OF dm d gd QR(2,3) T pT(1) _ sum assms(2)])
        (simp add: lR pR(1))
  qed
qed

theorem divmod_identity_gf_witness:
  "gf_poly (Polynomial [GF 5, GF 7, GF 1]) \<and> normalized (Polynomial [GF 5, GF 7, GF 1])
   \<and> gf_poly (Polynomial [GF 3, GF 9]) \<and> normalized (Polynomial [GF 3, GF 9])
   \<and> \<not> is_zero (Polynomial [GF 3, GF 9])
   \<and> divmod_identity (Polynomial [GF 5, GF 7, GF 1]) (Polynomial [GF 3, GF 9]) = Inr True"
  using divmod_identity_gf[of "Polynomial [GF 5, GF 7, GF 1]" "Polynomial [GF 3, GF 9]"]
  by (simp add: gf_poly_def normalized_def is_zero_def gfc_def in_field_def)

text \<open>
  The scenario of the specification over the integers, \<open>x\<^sup>2 + 1\<close> divided by \<open>x + 1\<close>:
  the quotient is \<open>x - 1\<close>, the remainder 2, and the identity holds there.
\<close>

lemma divmod_int_scenario:
  "poly_divmod (Polynomial [PyInt 1, PyInt 0, PyInt 1]) (Polynomial [PyInt 1, PyInt 1])
     = Inr (Polynomial [PyInt 1, PyInt (- 1)], Polynomial [PyInt 2])
   \<and> divmod_identity (Polynomial [PyInt 1, PyInt 0, PyInt 1]) (Polynomial [PyInt 1, PyInt 1])
     = Inr True"
  by code_simp

text \<open>
  Claim C7, as stated: for every dividend and every normalized nonzero divisor over
  GF(256), \<open>degree (p % d) < degree d\<close>.  It fails for a constant divisor: the remainder
  is then the zero polynomial, whose \<^verbatim>\<open>degree()\<close> is 0, the degree of the divisor.
\<close>

theorem remainder_degree_counterexample:
  "poly_mod (Polynomial [GF 5]) (Polynomial [GF 1]) = Inr (Polynomial [PyInt 0])
   \<and> \<not> degree (Polynomial [PyInt 0]) < degree (Polynomial [GF 1])"
  by code_simp

text \<open>
  Claim C7, amended.  For every normalized dividend \<open>p\<close> and every normalized nonzero
  divisor \<open>d\<close> over GF(256), \<^verbatim>\<open>p % d\<close> returns a remainder \<open>r\<close>; if the degree of \<open>d\<close> is at
  least 1 then \<open>degree r < degree d\<close>, and if it is 0 then \<open>r\<close> is the zero polynomial, of
  degree 0.
\<close>

theorem remainder_degree_gf:
  assumes "gf_poly p" "normalized p" "gf_poly d" "normalized d" "\<not> is_zero d"
  shows "\<exists>r. poly_mod p d = Inr r \<and> (1 \<le> degree d \<longrightarrow> degree r < degree d)
           \<and> (degree d = 0 \<longrightarrow> is_zero r \<and> degree r = 0)"
proof -
  from divisor_shape[OF assms(3,4,5)] obtain lc dtl where
    d: "coefficients d = GF lc # dtl" and lc: "1 \<le> lc" "lc \<le> 255" by blast
  have gdt: "list_all gfc dtl" using assms(3) d by (simp add: gf_poly_def)
  define pc where "pc = coefficients p"
  have pp: "p = Polynomial pc" by (cases p) (simp add: pc_def)
  have gp: "list_all gfc pc" "pc \<noteq> []" using assms(1) by (simp_all add: gf_poly_def pc_def)
  have dd: "d = Polynomial (GF lc # dtl)" using d by (cases d) simp
  have degd: "degree d = int (length dtl)" by (simp add: degree_def d)
  show ?thesis
  proof (cases "length pc \<le> length dtl")
    case True
    have "poly_divmod p d = Inr (Polynomial [PyInt 0], p)"
      using poly_divmod_short[OF d lc(1), of p] True by (simp add: pc_def)
    then have "poly_mod p d = Inr p" by (simp add: poly_mod_def ebind_def)
    moreover have "1 \<le> length pc" using gp(2) by (cases pc) simp_all
    with True have "length pc \<le> length dtl" "1 \<le> length dtl" by linarith+
    then have "degree p < degree d" "degree d \<noteq> 0"
      by (cases dtl; simp add: degree_def d pc_def[symmetric])+
    ultimately show ?thesis by simp
  next
    case False
    then have lt: "length dtl < length pc" by simp
    have hp: "val (hd pc) \<noteq> 0 \<or> length pc = 1"
      using assms(2) by (cases pc) (auto simp: normalized_def pc_def)
    define nq where "nq = length pc - length dtl"
    define V where "V = vdiv nq (map val dtl) (ginv lc) (map val pc)"
    from poly_divmod_gf[OF gp hp gdt lc lt] obtain Q R where
      QR: "poly_divmod (Polynomial pc) (Polynomial (GF lc # dtl)) = Inr (Polynomial Q, Polynomial R)"
        "map val R = vnorm (snd V)"
      unfolding nq_def V_def by blast
    have pm: "poly_mod p d = Inr (Polynomial R)"
      using QR(1) by (simp add: poly_mod_def pp dd ebind_def)
    have nq: "nq \<le> length (map val pc)" "length pc = nq + length dtl"
      using lt by (simp_all add: nq_def)
    from length_vdiv[OF nq(1), of "map val dtl" "ginv lc"]
    have lV: "length (snd V) = length dtl"
      using nq(2) by (simp add: V_def)
    have lR: "length R = length (vnorm (snd V))" using QR(2) by (metis length_map)
    have "length R \<le> max 1 (length dtl)"
      using length_vnorm[of "snd V"] by (simp add: lR lV)
    moreover have "R \<noteq> []" using QR(2) by (metis vnorm_nonempty map_is_Nil_conv)
    ultimately have a: "1 \<le> degree d \<longrightarrow> degree (Polynomial R) < degree d"
      by (cases R) (auto simp: degree_def d)
    have b: "degree d = 0 \<longrightarrow> is_zero (Polynomial R) \<and> degree (Polynomial R) = 0"
    proof
      assume "degree d = 0"
      then have "snd V = []" using lV by (simp add: degd)
      then have "map val R = [0]" by (simp add: QR(2) vnorm_def)
      then show "is_zero (Polynomial R) \<and> degree (Polynomial R) = 0"
        by (cases R) (simp_all add: is_zero_def degree_def)
    qed
    show ?thesis using pm a b by blast
  qed
qed

theorem remainder_degree_gf_witness:
  "gf_poly (Polynomial [GF 5, GF 7, GF 1]) \<and> normalized (Polynomial [GF 5, GF 7, GF 1])
   \<and> gf_poly (Polynomial [GF 3, GF 9]) \<and> normalized (Polynomial [GF 3, GF 9])
   \<and> \<not> is_zero (Polynomial [GF 3, GF 9]) \<and> 1 \<le> degree (Polynomial [GF 3, GF 9])
   \<and> (\<exists>r. poly_mod (Polynomial [GF 5, GF 7, GF 1]) (Polynomial [GF 3, GF 9]) = Inr r
          \<and> degree r < degree (Polynomial [GF 3, GF 9]))
   \<and> gf_poly (Polynomial [GF 2]) \<and> normalized (Polynomial [GF 2])
   \<and> \<not> is_zero (Polynomial [GF 2]) \<and> degree (Polynomial [GF 2]) = 0
   \<and> (\<exists>r. poly_mod (Polynomial [GF 5, GF 7, GF 1]) (Polynomial [GF 2]) = Inr r
          \<and> is_zero r \<and> degree r = 0)"
  using remainder_degree_gf[of "Polynomial [GF 5, GF 7, GF 1]" "Polynomial [GF 3, GF 9]"]
    remainder_degree_gf[of "Polynomial [GF 5, GF 7, GF 1]" "Polynomial [GF 2]"]
  by (simp add: gf_poly_def normalized_def is_zero_def gfc_def in_field_def degree_def)

end
